theory Spec2Isabelle
  imports Main "HOL-Library.Char_ord" "HOL-Library.List_Lexorder"
begin

section \<open>generate\_rev\_data.py: sampling revision ids of a wiki\<close>

text \<open>
  A shallow embedding of \<^verbatim>\<open>src/generate_rev_data.py\<close>. Every function of the script
  is a HOL function of the same name. What the script does beyond returning a value
  is explicit:
  \<^item> an exception is a value of \<open>exn\<close>, a result is \<open>exn + 'a\<close> (\<open>Inl\<close> raises);
  \<^item> the outside world is a \<open>world\<close>: the number of HTTP requests served so far
    and the trace of everything the script did (requests, standard output,
    standard error, sleeps);
  \<^item> the remote API is a parameter \<open>remote\<close>: the reply to the n-th request;
  \<^item> \<^verbatim>\<open>json.loads\<close> and \<^verbatim>\<open>getopt.gnu_getopt\<close> are library code: their results are
    inputs of the model (\<open>pyval option\<close>, \<open>getopt_result\<close>).
  Strings are lists of \<open>char\<close>, that is code points 0 to 255. JSON numbers are
  integers (a float never is a MediaWiki revision id).
\<close>

subsection \<open>Python values and exceptions\<close>

datatype exn =
    TypeError
  | ValueError
  | KeyError
  | IndexError
  | AttributeError
  | JSONDecodeError
  | RequestException
  | SystemExit int

text \<open>What \<^verbatim>\<open>json.loads\<close> returns. The keys of a decoded object are distinct strings.\<close>

datatype pyval =
    PNone
  | PBool bool
  | PInt int
  | PStr string
  | PList "pyval list"
  | PDict "(string \<times> pyval) list"

text \<open>A dict built by the script, in insertion order: keys are hashable values.\<close>

type_synonym pydict = "(pyval \<times> pyval) list"

fun py_hashable :: "pyval \<Rightarrow> bool" where
  "py_hashable (PList _) = False"
| "py_hashable (PDict _) = False"
| "py_hashable _ = True"

text \<open>\<^verbatim>\<open>bool\<close> is a subclass of \<^verbatim>\<open>int\<close>: \<^verbatim>\<open>True == 1\<close>, and both are one dict key.\<close>

fun int_like :: "pyval \<Rightarrow> int option" where
  "int_like (PBool b) = Some (if b then 1 else 0)"
| "int_like (PInt i) = Some i"
| "int_like _ = None"

definition py_eq :: "pyval \<Rightarrow> pyval \<Rightarrow> bool" where
  \<comment> \<open>\<^verbatim>\<open>==\<close> on hashable values\<close>
  "py_eq a b =
     (case int_like a of
        Some i \<Rightarrow> (case int_like b of Some j \<Rightarrow> i = j | None \<Rightarrow> False)
      | None \<Rightarrow> (case int_like b of Some j \<Rightarrow> False | None \<Rightarrow> a = b))"

fun py_truthy :: "pyval \<Rightarrow> bool" where
  "py_truthy PNone = False"
| "py_truthy (PBool b) = b"
| "py_truthy (PInt i) = (i \<noteq> 0)"
| "py_truthy (PStr s) = (s \<noteq> [])"
| "py_truthy (PList xs) = (xs \<noteq> [])"
| "py_truthy (PDict kvs) = (kvs \<noteq> [])"

text \<open>
  \<^verbatim>\<open>xs[i]\<close> on a list or a string of length n: the positions are 0 to n - 1, and
  -n to -1 name the same elements from the end. Any other index raises IndexError.
\<close>

definition seq_index :: "'a list \<Rightarrow> int \<Rightarrow> exn + 'a" where
  "seq_index xs i =
     (if 0 \<le> i \<and> i < int (length xs) then Inr (xs ! nat i)
      else if i < 0 \<and> - int (length xs) \<le> i then Inr (xs ! nat (int (length xs) + i))
      else Inl IndexError)"

text \<open>\<^verbatim>\<open>container[key]\<close>.\<close>

fun py_getitem :: "pyval \<Rightarrow> pyval \<Rightarrow> exn + pyval" where
  "py_getitem (PDict kvs) (PStr k) =
     (case map_of kvs k of Some v \<Rightarrow> Inr v | None \<Rightarrow> Inl KeyError)"
| "py_getitem (PDict kvs) k = (if py_hashable k then Inl KeyError else Inl TypeError)"
| "py_getitem (PList xs) k =
     (case int_like k of Some i \<Rightarrow> seq_index xs i | None \<Rightarrow> Inl TypeError)"
| "py_getitem (PStr s) k =
     (case int_like k of
        Some i \<Rightarrow> (case seq_index s i of Inl e \<Rightarrow> Inl e | Inr c \<Rightarrow> Inr (PStr [c]))
      | None \<Rightarrow> Inl TypeError)"
| "py_getitem _ k = Inl TypeError"

text \<open>\<^verbatim>\<open>for x in container\<close>: the values the loop visits.\<close>

fun py_iter :: "pyval \<Rightarrow> exn + pyval list" where
  "py_iter (PDict kvs) = Inr (map (\<lambda>kv. PStr (fst kv)) kvs)"
| "py_iter (PList xs) = Inr xs"
| "py_iter (PStr s) = Inr (map (\<lambda>c. PStr [c]) s)"
| "py_iter _ = Inl TypeError"

fun contains_sub :: "string \<Rightarrow> string \<Rightarrow> bool" where
  "contains_sub p [] = (p = [])"
| "contains_sub p (c # cs) = (take (length p) (c # cs) = p \<or> contains_sub p cs)"

text \<open>\<^verbatim>\<open>'key' in container\<close> for a string key.\<close>

fun py_contains :: "string \<Rightarrow> pyval \<Rightarrow> exn + bool" where
  "py_contains k (PDict kvs) = Inr (k \<in> set (map fst kvs))"
| "py_contains k (PList xs) = Inr (PStr k \<in> set xs)"
| "py_contains k (PStr s) = Inr (contains_sub k s)"
| "py_contains k _ = Inl TypeError"

text \<open>\<^verbatim>\<open>list(x.keys())\<close>: only a dict has the method.\<close>

fun py_keys :: "pyval \<Rightarrow> exn + string list" where
  "py_keys (PDict kvs) = Inr (map fst kvs)"
| "py_keys _ = Inl AttributeError"

text \<open>\<^verbatim>\<open>d[k] = v\<close> and \<^verbatim>\<open>d[k]\<close> on a dict of the script.\<close>

fun dict_update :: "pydict \<Rightarrow> pyval \<Rightarrow> pyval \<Rightarrow> pydict" where
  "dict_update [] k v = [(k, v)]"
| "dict_update ((k', v') # d) k v =
     (if py_eq k' k then (k', v) # d else (k', v') # dict_update d k v)"

definition dict_setitem :: "pydict \<Rightarrow> pyval \<Rightarrow> pyval \<Rightarrow> exn + pydict" where
  "dict_setitem d k v = (if py_hashable k then Inr (dict_update d k v) else Inl TypeError)"

fun dict_getitem :: "pydict \<Rightarrow> pyval \<Rightarrow> exn + pyval" where
  "dict_getitem [] k = (if py_hashable k then Inl KeyError else Inl TypeError)"
| "dict_getitem ((k', v') # d) k =
     (if \<not> py_hashable k then Inl TypeError
      else if py_eq k' k then Inr v' else dict_getitem d k)"

subsection \<open>Integers and strings\<close>

definition digit_char :: "nat \<Rightarrow> char" where
  "digit_char d = char_of (48 + d)"

definition is_ascii_digit :: "char \<Rightarrow> bool" where
  "is_ascii_digit c = (48 \<le> (of_char c :: nat) \<and> (of_char c :: nat) \<le> 57)"

definition digit_val :: "char \<Rightarrow> nat" where
  "digit_val c = of_char c - 48"

text \<open>\<^verbatim>\<open>str(n)\<close> for an integer: decimal digits, a minus sign when negative.\<close>

function str_nat :: "nat \<Rightarrow> string" where
  "str_nat n = (if n < 10 then [digit_char n] else str_nat (n div 10) @ [digit_char (n mod 10)])"
  by pat_completeness auto
termination
  by (relation "measure id") auto

declare str_nat.simps [simp del]

definition str_int :: "int \<Rightarrow> string" where
  "str_int i = (if i < 0 then CHR ''-'' # str_nat (nat (- i)) else str_nat (nat i))"

text \<open>
  \<^verbatim>\<open>int(s)\<close> for a string: surrounding whitespace is dropped, one sign is allowed,
  then decimal digits, with single underscores between digits. Anything else raises
  ValueError. The whitespace \<^verbatim>\<open>int\<close> drops is tab to carriage return (9 to 13) and
  the space, and of the code points from 128 on the next-line and no-break-space
  characters (133, 160); the separators 28 to 31 are not dropped, they raise.
\<close>

definition py_isspace :: "char \<Rightarrow> bool" where
  "py_isspace c =
     (let n = (of_char c :: nat)
      in (9 \<le> n \<and> n \<le> 13) \<or> n = 32 \<or> n = 133 \<or> n = 160)"

definition py_strip :: "string \<Rightarrow> string" where
  "py_strip s = rev (dropWhile py_isspace (rev (dropWhile py_isspace s)))"

fun digits_ok :: "string \<Rightarrow> bool" where
  "digits_ok [] = False"
| "digits_ok [c] = is_ascii_digit c"
| "digits_ok (c # d # cs) =
     (is_ascii_digit c \<and> (if d = CHR ''_'' then digits_ok cs else digits_ok (d # cs)))"

definition digits_value :: "string \<Rightarrow> nat" where
  "digits_value cs = foldl (\<lambda>acc c. 10 * acc + digit_val c) 0 (filter is_ascii_digit cs)"

definition int_of_str :: "string \<Rightarrow> exn + int" where
  "int_of_str s =
     (case py_strip s of
        [] \<Rightarrow> Inl ValueError
      | c # cs \<Rightarrow>
          if c = CHR ''-'' then
            (if digits_ok cs then Inr (- int (digits_value cs)) else Inl ValueError)
          else if c = CHR ''+'' then
            (if digits_ok cs then Inr (int (digits_value cs)) else Inl ValueError)
          else
            (if digits_ok (c # cs) then Inr (int (digits_value (c # cs))) else Inl ValueError))"

text \<open>\<^verbatim>\<open>int(x)\<close> for a decoded JSON value or None.\<close>

fun py_int :: "pyval \<Rightarrow> exn + int" where
  "py_int (PInt i) = Inr i"
| "py_int (PBool b) = Inr (if b then 1 else 0)"
| "py_int (PStr s) = int_of_str s"
| "py_int _ = Inl TypeError"

text \<open>
  \<^verbatim>\<open>s.isdigit()\<close>: the string is not empty and every character is a digit. Among the
  code points below 256 the digits are 0 to 9 and the superscripts two, three and one.
\<close>

definition py_isdigit_char :: "char \<Rightarrow> bool" where
  "py_isdigit_char c =
     (is_ascii_digit c \<or> c = CHR 0xB2 \<or> c = CHR 0xB3 \<or> c = CHR 0xB9)"

definition py_isdigit :: "string \<Rightarrow> bool" where
  "py_isdigit s = (s \<noteq> [] \<and> list_all py_isdigit_char s)"

text \<open>\<^verbatim>\<open>sep.join(xs)\<close>.\<close>

fun py_join :: "string \<Rightarrow> string list \<Rightarrow> string" where
  "py_join sep [] = []"
| "py_join sep [x] = x"
| "py_join sep (x # y # xs) = x @ sep @ py_join sep (y # xs)"

text \<open>
  \<^verbatim>\<open>range(start, stop, step)\<close> for a positive step, as a list: CPython's length
  formula, then start + k * step.
\<close>

definition range_len :: "int \<Rightarrow> int \<Rightarrow> int \<Rightarrow> nat" where
  "range_len lo hi step = (if lo < hi then nat (1 + (hi - 1 - lo) div step) else 0)"

definition py_range :: "int \<Rightarrow> int \<Rightarrow> int \<Rightarrow> int list" where
  "py_range lo hi step = map (\<lambda>k. lo + int k * step) [0 ..< range_len lo hi step]"

text \<open>
  \<^verbatim>\<open>sorted(xs)\<close> on dict keys (pairwise different). Integers and booleans compare as
  integers, strings by code points; any other pair of values raises TypeError. A list
  of at most one value is never compared.
\<close>

fun is_str :: "pyval \<Rightarrow> bool" where
  "is_str (PStr _) = True"
| "is_str _ = False"

fun str_key :: "pyval \<Rightarrow> string" where
  "str_key (PStr s) = s"
| "str_key _ = []"

fun int_key :: "pyval \<Rightarrow> int" where
  "int_key (PInt i) = i"
| "int_key (PBool b) = (if b then 1 else 0)"
| "int_key _ = 0"

definition py_sorted :: "pyval list \<Rightarrow> exn + pyval list" where
  "py_sorted xs =
     (if length xs \<le> 1 then Inr xs
      else if list_all (\<lambda>x. int_like x \<noteq> None) xs then Inr (sort_key int_key xs)
      else if list_all is_str xs then Inr (sort_key str_key xs)
      else Inl TypeError)"

subsection \<open>The world: requests, output, sleeps\<close>

record request =
  headers :: "(string \<times> string) list"
  url :: string
  params :: "(string \<times> string) list"
  timeout :: nat

text \<open>
  What \<^verbatim>\<open>sess.get\<close> gives: a response with its status code and the decoding of its
  body by \<^verbatim>\<open>json.loads\<close> (None when the body is not JSON), or an exception of the
  requests library (no connection, timeout).
\<close>

datatype reply = Response int "pyval option" | Failure

type_synonym remote = "nat \<Rightarrow> request \<Rightarrow> reply"

record args =
  domain :: "string option"
  start_rev :: string
  end_rev :: pyval
  dryrun :: bool
  verbose :: bool

datatype event =
    HttpGet request
  | Stderr string
  | PrintRev pyval pyval
  | PrintArgs args
  | Sleep nat

record world =
  served :: nat
  trace :: "event list"

definition emit :: "event \<Rightarrow> world \<Rightarrow> world" where
  "emit e w = w\<lparr>trace := trace w @ [e]\<rparr>"

definition http_get :: "remote \<Rightarrow> request \<Rightarrow> world \<Rightarrow> reply \<times> world" where
  "http_get remote req w =
     (remote (served w) req, \<lparr>served = Suc (served w), trace = trace w @ [HttpGet req]\<rparr>)"

subsection \<open>Command line\<close>

definition usage_message :: string where
  "usage_message = concat
     [''Usage: $0 --domain [--startrev <num>] [--endrev <num>]\<newline>'',
      ''       [--dryrun] [--verbose]\<newline>'',
      ''or: $0 --help\<newline>'',
      ''\<newline>'',
      ''Retrieve revision information in a format that can be fed to gnuplot to generate\<newline>'',
      ''a graph showing the increase in the number of revisions over time.\<newline>'',
      ''\<newline>'',
      ''Arguments:\<newline>'',
      ''\<newline>'',
      '' --domain   (-d):  fqdn of wiki from which to retrieve data. e.g. en.wikipedia.org\<newline>'',
      '' --startrev (-s):  starting rev_id; default 1\<newline>'',
      '' --endrev   (-e):  ending rev_id; default the current maximum revid\<newline>'',
      ''\<newline>'',
      ''Flags:\<newline>'',
      ''\<newline>'',
      '' --dryrun  (-d):  write the commands that would have been run instead of running them\<newline>'',
      '' --verbose (-v):  write some progress messages some day\<newline>'',
      '' --help    (-h):  show this help message\<newline>'']"

text \<open>
  \<^verbatim>\<open>usage\<close> writes the message, if any, and the usage text to standard error, then
  \<^verbatim>\<open>sys.exit(1)\<close> raises SystemExit: it never returns.
\<close>

definition usage :: "string option \<Rightarrow> world \<Rightarrow> (exn + 'a) \<times> world" where
  "usage message w =
     (let w1 = (case message of
                  None \<Rightarrow> w
                | Some m \<Rightarrow> if m \<noteq> [] then emit (Stderr (m @ ''\<newline>'')) w else w)
      in (Inl (SystemExit 1), emit (Stderr usage_message) w1))"

definition get_default_opts :: args where
  "get_default_opts =
     \<lparr>domain = None, start_rev = ''1'', end_rev = PNone, dryrun = False, verbose = False\<rparr>"

subsection \<open>Requests and the decoding of their replies\<close>

definition get_revids_url ::
  "string option \<Rightarrow> string list \<Rightarrow> exn + (string \<times> (string \<times> string) list)" where
  \<comment> \<open>\<^verbatim>\<open>'https://' + None\<close> raises TypeError\<close>
  "get_revids_url dmn revids =
     (case dmn of
        None \<Rightarrow> Inl TypeError
      | Some d \<Rightarrow>
          Inr (''https://'' @ d @ ''/w/api.php'',
               [(''action'', ''query''), (''prop'', ''revisions''),
                (''revids'', py_join ''|'' revids),
                (''rvprop'', ''ids|timestamp''), (''format'', ''json'')]))"

definition get_session :: "(string \<times> string) list" where
  "get_session =
     [(''User-Agent'', ''generate_rev_data.py/0.0 (ops-dumps@wikimedia.org)''),
      (''Accept'', ''application/json'')]"

text \<open>
  What \<^verbatim>\<open>get_revinfo_from_json\<close> returns: None, the empty dict \<^verbatim>\<open>{}\<close> (its only
  return of a dict alone), or the pair of the dict and the list of bad ids.
\<close>

datatype revinfo_result = RNone | REmptyDict | RTuple pydict "string list"

fun add_revisions :: "pydict \<Rightarrow> pyval list \<Rightarrow> exn + pydict" where
  "add_revisions d [] = Inr d"
| "add_revisions d (revision # rest) =
     (case py_getitem revision (PStr ''timestamp'') of
        Inl e \<Rightarrow> Inl e
      | Inr ts \<Rightarrow>
          (case py_getitem revision (PStr ''revid'') of
             Inl e \<Rightarrow> Inl e
           | Inr revid \<Rightarrow>
               (case dict_setitem d revid ts of
                  Inl e \<Rightarrow> Inl e
                | Inr d' \<Rightarrow> add_revisions d' rest)))"

fun add_pages :: "pyval \<Rightarrow> pydict \<Rightarrow> pyval list \<Rightarrow> exn + pydict" where
  "add_pages pages d [] = Inr d"
| "add_pages pages d (page # rest) =
     (case py_getitem pages page of
        Inl e \<Rightarrow> Inl e
      | Inr p \<Rightarrow>
          (case py_getitem p (PStr ''revisions'') of
             Inl e \<Rightarrow> Inl e
           | Inr revisions \<Rightarrow>
               (case py_iter revisions of
                  Inl e \<Rightarrow> Inl e
                | Inr revs \<Rightarrow>
                    (case add_revisions d revs of
                       Inl e \<Rightarrow> Inl e
                     | Inr d' \<Rightarrow> add_pages pages d' rest))))"

text \<open>The body of the \<^verbatim>\<open>try\<close> of \<^verbatim>\<open>get_revinfo_from_json\<close>.\<close>

definition revinfo_try :: "pyval option \<Rightarrow> exn + revinfo_result" where
  "revinfo_try content =
     (case content of
        None \<Rightarrow> Inl JSONDecodeError
      | Some revinfo \<Rightarrow>
          (case py_getitem revinfo (PStr ''query'') of
             Inl e \<Rightarrow> Inl e
           | Inr query \<Rightarrow>
               (case (case py_contains ''badrevids'' query of
                        Inl e \<Rightarrow> Inl e
                      | Inr False \<Rightarrow> Inr []
                      | Inr True \<Rightarrow>
                          (case py_getitem query (PStr ''badrevids'') of
                             Inl e \<Rightarrow> Inl e
                           | Inr b \<Rightarrow> py_keys b)) of
                  Inl e \<Rightarrow> Inl e
                | Inr badrevs \<Rightarrow>
                    (case py_contains ''pages'' query of
                       Inl e \<Rightarrow> Inl e
                     | Inr False \<Rightarrow> Inr REmptyDict
                     | Inr True \<Rightarrow>
                         (case py_getitem query (PStr ''pages'') of
                            Inl e \<Rightarrow> Inl e
                          | Inr pages \<Rightarrow>
                              (case py_iter pages of
                                 Inl e \<Rightarrow> Inl e
                               | Inr ps \<Rightarrow>
                                   (case add_pages pages [] ps of
                                      Inl e \<Rightarrow> Inl e
                                    | Inr revid_timestamp \<Rightarrow>
                                        Inr (RTuple revid_timestamp badrevs))))))))"

definition get_revinfo_from_json :: "pyval option \<Rightarrow> revinfo_result" where
  \<comment> \<open>\<^verbatim>\<open>except Exception: return None\<close>\<close>
  "get_revinfo_from_json content =
     (case revinfo_try content of Inl e \<Rightarrow> RNone | Inr r \<Rightarrow> r)"

definition get_maxrev_url :: "string \<Rightarrow> string \<times> (string \<times> string) list" where
  "get_maxrev_url d =
     (''https://'' @ d @ ''/w/api.php'',
      [(''action'', ''query''), (''list'', ''allrevisions''), (''arvlimit'', ''1''),
       (''arvdir'', ''older''), (''format'', ''json'')])"

fun extend_revisions :: "pyval list \<Rightarrow> pyval list \<Rightarrow> exn + pyval list" where
  "extend_revisions revisions [] = Inr revisions"
| "extend_revisions revisions (entry # rest) =
     (case py_getitem entry (PStr ''revisions'') of
        Inl e \<Rightarrow> Inl e
      | Inr r \<Rightarrow>
          (case py_iter r of
             Inl e \<Rightarrow> Inl e
           | Inr xs \<Rightarrow> extend_revisions (revisions @ xs) rest))"

text \<open>
  The body of the \<^verbatim>\<open>try\<close> of \<^verbatim>\<open>get_revid_from_json\<close>: None unless the entries hold
  exactly one revision.
\<close>

definition revid_try :: "pyval option \<Rightarrow> exn + pyval" where
  "revid_try content =
     (case content of
        None \<Rightarrow> Inl JSONDecodeError
      | Some revinfo \<Rightarrow>
          (case py_getitem revinfo (PStr ''query'') of
             Inl e \<Rightarrow> Inl e
           | Inr query \<Rightarrow>
               (case py_getitem query (PStr ''allrevisions'') of
                  Inl e \<Rightarrow> Inl e
                | Inr allrevs \<Rightarrow>
                    (case py_iter allrevs of
                       Inl e \<Rightarrow> Inl e
                     | Inr entries \<Rightarrow>
                         (case extend_revisions [] entries of
                            Inl e \<Rightarrow> Inl e
                          | Inr revisions \<Rightarrow>
                              (case revisions of
                                 [r] \<Rightarrow> py_getitem r (PStr ''revid'')
                               | _ \<Rightarrow> Inr PNone))))))"

definition get_revid_from_json :: "pyval option \<Rightarrow> pyval" where
  "get_revid_from_json content =
     (case revid_try content of Inl e \<Rightarrow> PNone | Inr revid \<Rightarrow> revid)"

definition get_max_rev :: "remote \<Rightarrow> string \<Rightarrow> world \<Rightarrow> (exn + pyval) \<times> world" where
  "get_max_rev remote d w =
     (let sess = get_session;
          (u, ps) = get_maxrev_url d;
          (response, w1) =
             http_get remote \<lparr>headers = sess, url = u, params = ps, timeout = 5\<rparr> w
      in case response of
           Failure \<Rightarrow> (Inl RequestException, w1)
         | Response status_code content \<Rightarrow>
             if status_code \<noteq> 200
             then (Inr PNone, emit (Stderr (''failed to get revid for '' @ u @ ''\<newline>'')) w1)
             else (Inr (get_revid_from_json content), w1))"

text \<open>
  \<^verbatim>\<open>get_revinfo\<close>: None on a status other than 200; otherwise the result of
  \<^verbatim>\<open>get_revinfo_from_json\<close> is unpacked into two names. Unpacking None raises
  TypeError, unpacking the empty dict raises ValueError.
\<close>

definition get_revinfo ::
  "remote \<Rightarrow> string list \<Rightarrow> string option \<Rightarrow> world
     \<Rightarrow> (exn + (pydict \<times> string list) option) \<times> world" where
  "get_revinfo remote revids dmn w =
     (let sess = get_session
      in case get_revids_url dmn revids of
           Inl e \<Rightarrow> (Inl e, w)
         | Inr (u, ps) \<Rightarrow>
             (let (response, w1) =
                    http_get remote \<lparr>headers = sess, url = u, params = ps, timeout = 5\<rparr> w
              in case response of
                   Failure \<Rightarrow> (Inl RequestException, w1)
                 | Response status_code content \<Rightarrow>
                     if status_code \<noteq> 200
                     then (Inr None,
                           emit (Stderr (''failed to get revid for '' @ u @ ''\<newline>'')) w1)
                     else (case get_revinfo_from_json content of
                             RNone \<Rightarrow> (Inl TypeError, w1)
                           | REmptyDict \<Rightarrow> (Inl ValueError, w1)
                           | RTuple revinfo badrevs \<Rightarrow> (Inr (Some (revinfo, badrevs)), w1))))"

subsection \<open>Checking the options\<close>

fun isdigit_method :: "pyval \<Rightarrow> exn + bool" where
  \<comment> \<open>\<^verbatim>\<open>x.isdigit()\<close>: only a string has the method\<close>
  "isdigit_method (PStr s) = Inr (py_isdigit s)"
| "isdigit_method _ = Inl AttributeError"

definition check_opts :: "remote \<Rightarrow> args \<Rightarrow> world \<Rightarrow> (exn + args) \<times> world" where
  "check_opts remote a w =
     (case domain a of
        None \<Rightarrow> usage (Some ''The argument 'domain' must be specified and may not be empty.'') w
      | Some d \<Rightarrow>
          if d = [] then
            usage (Some ''The argument 'domain' must be specified and may not be empty.'') w
          else if \<not> py_isdigit (start_rev a) then
            usage (Some ''The 'startrev' argument must be a number.'') w
          else
            (case (if py_truthy (end_rev a)
                   then (case isdigit_method (end_rev a) of
                           Inl e \<Rightarrow> Inl e
                         | Inr b \<Rightarrow> Inr (\<not> b))
                   else Inr False) of
               Inl e \<Rightarrow> (Inl e, w)
             | Inr True \<Rightarrow> usage (Some ''The 'endrev' argument must be a number.'') w
             | Inr False \<Rightarrow>
                 if \<not> py_truthy (end_rev a) then
                   (case get_max_rev remote d w of
                      (Inl e, w1) \<Rightarrow> (Inl e, w1)
                    | (Inr r, w1) \<Rightarrow> (Inr (a\<lparr>end_rev := r\<rparr>), w1))
                 else (Inr a, w)))"

text \<open>
  What \<^verbatim>\<open>getopt.gnu_getopt\<close> makes of \<^verbatim>\<open>sys.argv[1:]\<close>: it raises GetoptError with a
  message (an option it does not know, a missing value), or returns the options
  with their values and the remaining arguments.
\<close>

datatype getopt_result = GetoptError string | Parsed "(string \<times> string) list" "string list"

fun set_opts :: "args \<Rightarrow> (string \<times> string) list \<Rightarrow> world \<Rightarrow> (exn + args) \<times> world" where
  "set_opts a [] w = (Inr a, w)"
| "set_opts a ((opt, val) # rest) w =
     (if opt = ''-d'' \<or> opt = ''--domain'' then set_opts (a\<lparr>domain := Some val\<rparr>) rest w
      else if opt = ''-e'' \<or> opt = ''--endrev'' then set_opts (a\<lparr>end_rev := PStr val\<rparr>) rest w
      else if opt = ''-s'' \<or> opt = ''--startrev'' then set_opts (a\<lparr>start_rev := val\<rparr>) rest w
      else if opt = ''-D'' \<or> opt = ''--dryrun'' then set_opts (a\<lparr>dryrun := True\<rparr>) rest w
      else if opt = ''-v'' \<or> opt = ''--verbose'' then set_opts (a\<lparr>verbose := True\<rparr>) rest w
      else if opt = ''-h'' \<or> opt = ''--help'' then usage (Some ''Help for this script\<newline>'') w
      else usage (Some (''Unknown option specified: <'' @ opt @ ''>'')) w)"

definition process_opts :: "remote \<Rightarrow> getopt_result \<Rightarrow> world \<Rightarrow> (exn + args) \<times> world" where
  "process_opts remote argv w =
     (case argv of
        GetoptError err \<Rightarrow> usage (Some (''Unknown option specified: '' @ err)) w
      | Parsed options remainder \<Rightarrow>
          (case set_opts get_default_opts options w of
             (Inl e, w1) \<Rightarrow> (Inl e, w1)
           | (Inr a, w1) \<Rightarrow>
               (case remainder of
                  r # _ \<Rightarrow> usage (Some (''Unknown option(s) specified: '' @ r)) w1
                | [] \<Rightarrow> check_opts remote a w1)))"

subsection \<open>Printing and the batches\<close>

fun print_revs :: "pydict \<Rightarrow> pyval list \<Rightarrow> world \<Rightarrow> (exn + unit) \<times> world" where
  "print_revs revinfo [] w = (Inr (), w)"
| "print_revs revinfo (revid # rest) w =
     (case dict_getitem revinfo revid of
        Inl e \<Rightarrow> (Inl e, w)
      | Inr ts \<Rightarrow> print_revs revinfo rest (emit (PrintRev revid ts) w))"

definition display_revinfo :: "pydict \<Rightarrow> world \<Rightarrow> (exn + unit) \<times> world" where
  "display_revinfo revinfo w =
     (case py_sorted (map fst revinfo) of
        Inl e \<Rightarrow> (Inl e, w)
      | Inr revids \<Rightarrow> print_revs revinfo revids w)"

text \<open>
  The elements of \<^verbatim>\<open>revrange\<close>: integers of a \<^verbatim>\<open>range\<close> on the first pass, strings on
  a retry pass. \<^verbatim>\<open>str\<close> turns both into the strings of the request.
\<close>

datatype revid = IntRev int | StrRev string

fun str_revid :: "revid \<Rightarrow> string" where
  "str_revid (IntRev i) = str_int i"
| "str_revid (StrRev s) = s"

text \<open>
  The loop of \<^verbatim>\<open>do_revrange\<close>, entered with the batch of the first ten elements of
  \<^verbatim>\<open>revrange\<close>; \<open>redo\<close> is the list of bad ids so far. Unpacking the None of
  \<^verbatim>\<open>get_revinfo\<close> raises TypeError.
\<close>

function revrange_loop ::
  "remote \<Rightarrow> string option \<Rightarrow> revid list \<Rightarrow> string list \<Rightarrow> world
     \<Rightarrow> (exn + string list) \<times> world" where
  "revrange_loop remote dmn revrange redo w =
     (if map str_revid (take 10 revrange) = [] then (Inr redo, w)
      else
        (case get_revinfo remote (map str_revid (take 10 revrange)) dmn w of
           (Inl e, w1) \<Rightarrow> (Inl e, w1)
         | (Inr None, w1) \<Rightarrow> (Inl TypeError, w1)
         | (Inr (Some (revinfo, badrevs)), w1) \<Rightarrow>
             (case display_revinfo revinfo w1 of
                (Inl e, w2) \<Rightarrow> (Inl e, w2)
              | (Inr u, w2) \<Rightarrow>
                  if map str_revid (take 10 (drop 10 revrange)) = []
                  then (Inr (redo @ badrevs), w2)
                  else revrange_loop remote dmn (drop 10 revrange) (redo @ badrevs)
                         (emit (Sleep 5) w2))))"
  by pat_completeness auto
termination
  by (relation "measure (\<lambda>(remote, dmn, revrange, redo, w). length revrange)") auto

declare revrange_loop.simps [simp del]

definition do_revrange ::
  "remote \<Rightarrow> revid list \<Rightarrow> string option \<Rightarrow> world \<Rightarrow> (exn + string list) \<times> world" where
  "do_revrange remote revrange dmn w = revrange_loop remote dmn revrange [] w"

subsection \<open>The entry point\<close>

text \<open>\<^verbatim>\<open>[str(int(rev) + 1) for rev in redo]\<close>: the first id that is no number raises.\<close>

fun increment_all :: "string list \<Rightarrow> exn + string list" where
  "increment_all [] = Inr []"
| "increment_all (rv # rest) =
     (case int_of_str rv of
        Inl e \<Rightarrow> Inl e
      | Inr i \<Rightarrow>
          (case increment_all rest of
             Inl e \<Rightarrow> Inl e
           | Inr xs \<Rightarrow> Inr (str_int (i + 1) # xs)))"

datatype outcome = Returned | Raised exn

text \<open>
  The \<^verbatim>\<open>while redo\<close> loop of \<^verbatim>\<open>do_main\<close>. Nothing bounds the number of its passes, so
  the model counts them: \<open>fuel\<close> is the number of passes allowed, and the result is
  None when the loop is still running after them.
\<close>

fun retry_loop ::
  "nat \<Rightarrow> remote \<Rightarrow> string option \<Rightarrow> string list \<Rightarrow> world \<Rightarrow> outcome option \<times> world" where
  "retry_loop fuel remote dmn [] w = (Some Returned, w)"
| "retry_loop 0 remote dmn (r # rs) w = (None, w)"
| "retry_loop (Suc fuel) remote dmn (r # rs) w =
     (case increment_all (r # rs) of
        Inl e \<Rightarrow> (Some (Raised e), w)
      | Inr new_range \<Rightarrow>
          (case do_revrange remote (map StrRev new_range) dmn w of
             (Inl e, w1) \<Rightarrow> (Some (Raised e), w1)
           | (Inr redo, w1) \<Rightarrow> retry_loop fuel remote dmn redo w1))"

definition do_main ::
  "nat \<Rightarrow> remote \<Rightarrow> getopt_result \<Rightarrow> world \<Rightarrow> outcome option \<times> world" where
  "do_main fuel remote argv w =
     (case process_opts remote argv w of
        (Inl e, w1) \<Rightarrow> (Some (Raised e), w1)
      | (Inr a, w1) \<Rightarrow>
          (let w2 = (if verbose a then emit (PrintArgs a) w1 else w1)
           in case int_of_str (start_rev a) of
                Inl e \<Rightarrow> (Some (Raised e), w2)
              | Inr lo \<Rightarrow>
                  (case py_int (end_rev a) of
                     Inl e \<Rightarrow> (Some (Raised e), w2)
                   | Inr hi \<Rightarrow>
                       (case do_revrange remote (map IntRev (py_range lo hi 10000000))
                               (domain a) w2 of
                          (Inl e, w3) \<Rightarrow> (Some (Raised e), w3)
                        | (Inr redo, w3) \<Rightarrow>
                            retry_loop fuel remote (domain a) redo
                              (if redo \<noteq> [] then emit (Sleep 5) w3 else w3)))))"

definition world0 :: world where
  "world0 = \<lparr>served = 0, trace = []\<rparr>"

subsection \<open>Names for what the script sends and writes\<close>

text \<open>The request \<^verbatim>\<open>get_revinfo\<close> sends for a batch, and the one of \<^verbatim>\<open>get_max_rev\<close>.\<close>

definition batch_request :: "string \<Rightarrow> string list \<Rightarrow> request" where
  "batch_request d revids =
     \<lparr>headers = get_session, url = ''https://'' @ d @ ''/w/api.php'',
      params = [(''action'', ''query''), (''prop'', ''revisions''),
                (''revids'', py_join ''|'' revids),
                (''rvprop'', ''ids|timestamp''), (''format'', ''json'')],
      timeout = 5\<rparr>"

definition maxrev_request :: "string \<Rightarrow> request" where
  "maxrev_request d =
     \<lparr>headers = get_session, url = ''https://'' @ d @ ''/w/api.php'',
      params = [(''action'', ''query''), (''list'', ''allrevisions''), (''arvlimit'', ''1''),
                (''arvdir'', ''older''), (''format'', ''json'')],
      timeout = 5\<rparr>"

text \<open>The line both lookups write to standard error on a status other than 200.\<close>

definition failed_line :: "string \<Rightarrow> event" where
  "failed_line d = Stderr (''failed to get revid for https://'' @ d @ ''/w/api.php\<newline>'')"

text \<open>The world after one more request.\<close>

definition sent :: "request \<Rightarrow> world \<Rightarrow> world" where
  "sent req w = \<lparr>served = Suc (served w), trace = trace w @ [HttpGet req]\<rparr>"

subsection \<open>Reading a trace\<close>

fun requests_of :: "event list \<Rightarrow> request list" where
  "requests_of [] = []"
| "requests_of (HttpGet r # es) = r # requests_of es"
| "requests_of (e # es) = requests_of es"

fun printed_of :: "event list \<Rightarrow> (pyval \<times> pyval) list" where
  "printed_of [] = []"
| "printed_of (PrintRev k v # es) = (k, v) # printed_of es"
| "printed_of (e # es) = printed_of es"

text \<open>
  What the loop of \<^verbatim>\<open>do_revrange\<close> raises on the reply to a batch request, before it
  looks at any revision: the exception of the requests library, the TypeError of
  unpacking None, the ValueError of unpacking the empty dict.
\<close>

definition fatal_reply :: "reply \<Rightarrow> exn option" where
  "fatal_reply rp =
     (case rp of
        Failure \<Rightarrow> Some RequestException
      | Response st content \<Rightarrow>
          if st \<noteq> 200 then Some TypeError
          else (case get_revinfo_from_json content of
                  RNone \<Rightarrow> Some TypeError
                | REmptyDict \<Rightarrow> Some ValueError
                | RTuple revinfo badrevs \<Rightarrow> None))"

text \<open>
  The state of a run that has raised \<open>r\<close> (or nothing yet): the requests are
  counted, and a batch request with a fatal reply is the last request of the run,
  which raised what that reply raises.
\<close>

definition run_state :: "remote \<Rightarrow> exn option \<Rightarrow> world \<Rightarrow> bool" where
  "run_state remote r w =
     (served w = length (requests_of (trace w)) \<and>
      (\<forall>i d b e. i < served w \<and> requests_of (trace w) ! i = batch_request d b \<and>
           fatal_reply (remote i (batch_request d b)) = Some e
         \<longrightarrow> r = Some e \<and> Suc i = served w))"

fun raised :: "exn + 'a \<Rightarrow> exn option" where
  "raised (Inl e) = Some e"
| "raised (Inr x) = None"

fun raised_outcome :: "outcome option \<Rightarrow> exn option" where
  "raised_outcome (Some (Raised e)) = Some e"
| "raised_outcome _ = None"

subsection \<open>The text of a printed line\<close>

fun is_int :: "pyval \<Rightarrow> bool" where
  "is_int (PInt _) = True"
| "is_int _ = False"

text \<open>
  \<^verbatim>\<open>str(x)\<close> for None, a boolean, an integer and a string; the text of a list or a
  dict is not modelled. \<^verbatim>\<open>print(a, b)\<close> writes both texts with one space between
  them and a newline.
\<close>

fun py_str :: "pyval \<Rightarrow> string option" where
  "py_str PNone = Some ''None''"
| "py_str (PBool b) = Some (if b then ''True'' else ''False'')"
| "py_str (PInt i) = Some (str_int i)"
| "py_str (PStr s) = Some s"
| "py_str _ = None"

definition print_text :: "pyval \<Rightarrow> pyval \<Rightarrow> string option" where
  "print_text a b =
     (case py_str a of
        None \<Rightarrow> None
      | Some x \<Rightarrow> (case py_str b of None \<Rightarrow> None | Some y \<Rightarrow> Some (x @ '' '' @ y @ ''\<newline>'')))"

subsection \<open>Batches, in the words of the specification\<close>

text \<open>
  The partition of a sequence into consecutive batches of at most 10 elements: the
  first ten, then the batches of the rest.
\<close>

function batches :: "'a list \<Rightarrow> 'a list list" where
  "batches xs = (if xs = [] then [] else take 10 xs # batches (drop 10 xs))"
  by pat_completeness auto
termination
  by (relation "measure length") auto

declare batches.simps [simp del]

text \<open>
  A reply to a batch request that the loop of \<^verbatim>\<open>do_revrange\<close> gets through: status
  200, a body that \<^verbatim>\<open>get_revinfo_from_json\<close> turns into a pair, and keys that
  \<^verbatim>\<open>sorted\<close> can order. \<open>n\<close> is the number of requests served before it.
\<close>

definition batch_ok :: "remote \<Rightarrow> string \<Rightarrow> nat \<Rightarrow> string list \<Rightarrow> bool" where
  "batch_ok remote d n b =
     (case remote n (batch_request d b) of
        Failure \<Rightarrow> False
      | Response st content \<Rightarrow>
          st = 200 \<and>
          (case get_revinfo_from_json content of
             RTuple revinfo badrevs \<Rightarrow>
               (case py_sorted (map fst revinfo) of Inl e \<Rightarrow> False | Inr ks \<Rightarrow> True)
           | _ \<Rightarrow> False))"

text \<open>
  The batches that get a request, given which request gets through: one request per
  batch, in order, the next batch only after the one before it got through.
\<close>

fun sent_batches :: "(nat \<Rightarrow> 'a \<Rightarrow> bool) \<Rightarrow> nat \<Rightarrow> 'a list \<Rightarrow> 'a list" where
  "sent_batches ok n [] = []"
| "sent_batches ok n (b # bs) = b # (if ok n b then sent_batches ok (Suc n) bs else [])"

fun all_through :: "(nat \<Rightarrow> 'a \<Rightarrow> bool) \<Rightarrow> nat \<Rightarrow> 'a list \<Rightarrow> bool" where
  "all_through ok n [] = True"
| "all_through ok n (b # bs) = (ok n b \<and> all_through ok (Suc n) bs)"

subsection \<open>A command line, in the words of the specification\<close>





subsection \<open>A remote with no good revision\<close>

text \<open>
  A remote for which whatever is asked is bad: every reply has status 200, lists the
  \<^verbatim>\<open>revids\<close> parameter of the request under \<^verbatim>\<open>badrevids\<close>, and has an empty
  \<^verbatim>\<open>pages\<close> section. A request for one id gets that id back as bad.
\<close>

definition all_bad :: remote where
  "all_bad n req =
     Response 200 (Some (PDict [(''query'', PDict
        [(''badrevids'',
            PDict [(case map_of (params req) ''revids'' of None \<Rightarrow> [] | Some s \<Rightarrow> s, PDict [])]),
         (''pages'', PDict [])])]))"

text \<open>
  A remote for which the one id \<open>s\<close> is bad and every other request is answered with an
  empty \<^verbatim>\<open>pages\<close> section and no bad ids.
\<close>

definition bad_only :: "string \<Rightarrow> remote" where
  "bad_only s n req =
     Response 200 (Some (PDict [(''query'', PDict
        [(''badrevids'',
            PDict (if map_of (params req) ''revids'' = Some s then [(s, PDict [])] else [])),
         (''pages'', PDict [])])]))"

subsection \<open>Two runs that differ in the dry-run flag\<close>

text \<open>
  The options of a command line that set the dry-run flag, and the command line without
  them.
\<close>

definition is_dryrun :: "string \<times> string \<Rightarrow> bool" where
  "is_dryrun ov = (fst ov = ''-D'' \<or> fst ov = ''--dryrun'')"

definition without_dryrun :: "(string \<times> string) list \<Rightarrow> (string \<times> string) list" where
  "without_dryrun options = filter (\<lambda>ov. \<not> is_dryrun ov) options"

text \<open>
  The one place where the flag can be seen is the line of \<^verbatim>\<open>--verbose\<close> that prints the
  whole dict of arguments. \<open>forget_dryrun\<close> resets the flag in that line and leaves every
  other event as it is; two worlds are the \<open>same_run\<close> when they have served as many
  requests and their traces agree up to that.
\<close>

definition no_dryrun :: "args \<Rightarrow> args" where
  "no_dryrun a = a\<lparr>dryrun := False\<rparr>"

fun forget_dryrun :: "event \<Rightarrow> event" where
  "forget_dryrun (PrintArgs a) = PrintArgs (no_dryrun a)"
| "forget_dryrun e = e"

definition same_run :: "world \<Rightarrow> world \<Rightarrow> bool" where
  "same_run w w' =
     (served w = served w' \<and> map forget_dryrun (trace w) = map forget_dryrun (trace w'))"

definition same_result :: "'a \<times> world \<Rightarrow> 'a \<times> world \<Rightarrow> bool" where
  "same_result res res' = (fst res = fst res' \<and> same_run (snd res) (snd res'))"

section \<open>Properties\<close>

subsection \<open>What one batch lookup does\<close>

lemma get_revinfo_unfold:
  "get_revinfo remote revids (Some d) w =
     (case remote (served w) (batch_request d revids) of
        Failure \<Rightarrow> (Inl RequestException, sent (batch_request d revids) w)
      | Response st content \<Rightarrow>
          if st \<noteq> 200
          then (Inr None, emit (failed_line d) (sent (batch_request d revids) w))
          else (case get_revinfo_from_json content of
                  RNone \<Rightarrow> (Inl TypeError, sent (batch_request d revids) w)
                | REmptyDict \<Rightarrow> (Inl ValueError, sent (batch_request d revids) w)
                | RTuple revinfo badrevs \<Rightarrow>
                    (Inr (Some (revinfo, badrevs)), sent (batch_request d revids) w)))"
  by (simp add: get_revinfo_def get_revids_url_def http_get_def batch_request_def
      failed_line_def sent_def split: reply.splits revinfo_result.splits)

lemma py_contains_dict: "py_contains k (PDict kvs) = Inr (map_of kvs k \<noteq> None)"
  by (simp add: map_of_eq_None_iff)

lemma revinfo_try_no_pages:
  assumes "map_of body ''query'' = Some (PDict q)" "map_of q ''pages'' = None"
  shows "revinfo_try (Some (PDict body)) =
           (case map_of q ''badrevids'' of
              None \<Rightarrow> Inr REmptyDict
            | Some (PDict b) \<Rightarrow> Inr REmptyDict
            | Some _ \<Rightarrow> Inl AttributeError)"
  using assms
  by (simp add: revinfo_try_def py_contains_dict del: py_contains.simps
      split: option.splits pyval.splits)

lemma revrange_loop_raises:
  assumes "revrange \<noteq> []"
    and "get_revinfo remote (map str_revid (take 10 revrange)) dmn w = (Inl e, w1)"
  shows "revrange_loop remote dmn revrange redo w = (Inl e, w1)"
  using assms by (subst revrange_loop.simps) simp

lemma revrange_loop_none:
  assumes "revrange \<noteq> []"
    and "get_revinfo remote (map str_revid (take 10 revrange)) dmn w = (Inr None, w1)"
  shows "revrange_loop remote dmn revrange redo w = (Inl TypeError, w1)"
  using assms by (subst revrange_loop.simps) simp

text \<open>
  C1. The claim: on a status 200 whose body has a query object with no pages section,
  the batch lookup returns an empty mapping with the ids under badrevids as bad ids,
  and does not raise. The code does not: \<^verbatim>\<open>get_revinfo_from_json\<close> returns the
  empty dict alone (or None, when badrevids is no object), and \<^verbatim>\<open>get_revinfo\<close>
  unpacks it into two names, which raises ValueError (or TypeError). So on every such
  response the lookup raises.
\<close>

theorem get_revinfo_no_pages_raises:
  assumes "remote (served w) (batch_request d revids) = Response 200 (Some (PDict body))"
    and "map_of body ''query'' = Some (PDict q)"
    and "map_of q ''pages'' = None"
  shows "fst (get_revinfo remote revids (Some d) w) =
           Inl (case map_of q ''badrevids'' of
                  None \<Rightarrow> ValueError
                | Some (PDict b) \<Rightarrow> ValueError
                | Some _ \<Rightarrow> TypeError)"
  using revinfo_try_no_pages[OF assms(2,3)] assms(1)
  by (simp add: get_revinfo_unfold get_revinfo_from_json_def split: option.splits pyval.splits)

theorem get_revinfo_no_pages_raises_witness:
  "fst (get_revinfo
          (\<lambda>n req. Response 200 (Some (PDict
             [(''batchcomplete'', PStr ''''),
              (''query'', PDict [(''badrevids'',
                 PDict [(''5'', PDict [(''revid'', PInt 5), (''missing'', PStr '''')])])])])))
          [''5''] (Some ''en.wikipedia.org'') world0) = Inl ValueError"
proof -
  let ?q = "[(''badrevids'', PDict [(''5'', PDict [(''revid'', PInt 5), (''missing'', PStr '''')])])]"
  let ?body = "[(''batchcomplete'', PStr ''''), (''query'', PDict ?q)]"
  let ?remote = "\<lambda>(n::nat) (req::request). Response 200 (Some (PDict ?body))"
  have h1: "?remote (served world0) (batch_request ''en.wikipedia.org'' [''5''])
              = Response 200 (Some (PDict ?body))" by simp
  have h2: "map_of ?body ''query'' = Some (PDict ?q)" by simp
  have h3: "map_of ?q ''pages'' = None" by simp
  show ?thesis using get_revinfo_no_pages_raises[OF h1 h2 h3] by simp
qed

subsection \<open>The state of a run\<close>

lemma requests_of_append: "requests_of (xs @ ys) = requests_of xs @ requests_of ys"
  by (induction xs rule: requests_of.induct) auto

lemma run_state_None_imp: "run_state remote None w \<Longrightarrow> run_state remote r w"
  by (auto simp: run_state_def)

lemma run_state_emit:
  assumes "run_state remote r w" "requests_of [e] = []"
  shows "run_state remote r (emit e w)"
  using assms by (auto simp: run_state_def emit_def requests_of_append)

lemma run_state_sent_batch:
  assumes "run_state remote None w"
  shows "run_state remote (fatal_reply (remote (served w) (batch_request d b)))
           (sent (batch_request d b) w)"
  using assms
  by (auto simp: run_state_def sent_def requests_of_append nth_append less_Suc_eq)

lemma maxrev_not_batch: "maxrev_request d \<noteq> batch_request d' b"
  by (simp add: maxrev_request_def batch_request_def)

lemma run_state_sent_maxrev:
  assumes "run_state remote None w"
  shows "run_state remote None (sent (maxrev_request d) w)"
  using assms maxrev_not_batch
  by (auto simp: run_state_def sent_def requests_of_append nth_append less_Suc_eq)


lemma get_revinfo_state:
  assumes "run_state remote None w" "get_revinfo remote b dmn w = (r, w')"
  shows "run_state remote (case r of Inl e \<Rightarrow> Some e | Inr None \<Rightarrow> Some TypeError
                            | Inr (Some p) \<Rightarrow> None) w'"
proof (cases dmn)
  case None
  then show ?thesis using assms
    by (auto simp: get_revinfo_def get_revids_url_def intro: run_state_None_imp)
next
  case (Some d)
  have f: "requests_of [failed_line d] = []" by (simp add: failed_line_def)
  show ?thesis
    using assms(2) run_state_sent_batch[OF assms(1), of d b] f
    unfolding Some get_revinfo_unfold
    by (auto simp: fatal_reply_def split: reply.splits if_splits revinfo_result.splits
        intro: run_state_emit)
qed

lemma print_revs_state:
  "run_state remote r w \<Longrightarrow> run_state remote r (snd (print_revs revinfo ks w))"
proof (induction ks arbitrary: w)
  case Nil
  then show ?case by simp
next
  case (Cons k ks)
  have "run_state remote r (emit (PrintRev k v) w)" for v
    using Cons.prems by (auto intro: run_state_emit)
  then show ?case using Cons.prems by (auto split: sum.splits intro: Cons.IH)
qed

lemma display_revinfo_state:
  "run_state remote r w \<Longrightarrow> run_state remote r (snd (display_revinfo revinfo w))"
  by (auto simp: display_revinfo_def split: sum.splits intro: print_revs_state)

lemma revrange_loop_state:
  "run_state remote None w \<Longrightarrow> revrange_loop remote dmn revrange redo w = (r, w')
     \<Longrightarrow> run_state remote (raised r) w'"
proof (induction remote dmn revrange redo w arbitrary: r w' rule: revrange_loop.induct)
  case (1 remote dmn revrange redo w)
  let ?batch = "map str_revid (take 10 revrange)"
  show ?case
  proof (cases "?batch = []")
    case True
    then show ?thesis using "1.prems" by (subst (asm) revrange_loop.simps) auto
  next
    case False
    obtain g w1 where g: "get_revinfo remote ?batch dmn w = (g, w1)" by fastforce
    note st = get_revinfo_state[OF "1.prems"(1) g]
    show ?thesis
    proof (cases g)
      case (Inl e)
      then show ?thesis using "1.prems"(2) False g st
        by (subst (asm) revrange_loop.simps) auto
    next
      case (Inr o1)
      show ?thesis
      proof (cases o1)
        case None
        then show ?thesis using "1.prems"(2) False g st Inr
          by (subst (asm) revrange_loop.simps) auto
      next
        case (Some p)
        obtain revinfo badrevs where p: "p = (revinfo, badrevs)" by fastforce
        obtain dr w2 where dr: "display_revinfo revinfo w1 = (dr, w2)" by fastforce
        have st1: "run_state remote None w1" using st Inr Some by simp
        have st2: "run_state remote None w2"
          using display_revinfo_state[OF st1, of revinfo] dr by simp
        show ?thesis
        proof (cases dr)
          case (Inl e)
          then show ?thesis using "1.prems"(2) False g Inr Some p dr st2
            by (subst (asm) revrange_loop.simps) (auto intro: run_state_None_imp)
        next
          case (Inr u)
          show ?thesis
          proof (cases "map str_revid (take 10 (drop 10 revrange)) = []")
            case True
            then show ?thesis using "1.prems"(2) False g \<open>g = Inr o1\<close> Some p dr st2 Inr
              by (subst (asm) revrange_loop.simps) auto
          next
            case F2: False
            have st3: "run_state remote None (emit (Sleep 5) w2)"
              using st2 by (auto intro: run_state_emit)
            have rec: "revrange_loop remote dmn (drop 10 revrange) (redo @ badrevs)
                         (emit (Sleep 5) w2) = (r, w')"
              using "1.prems"(2) False g \<open>g = Inr o1\<close> Some p dr Inr F2
              by (subst (asm) revrange_loop.simps) auto
            show ?thesis
              using "1.IH"[OF False g[symmetric] \<open>g = Inr o1\<close> Some p[symmetric] dr[symmetric] Inr F2 st3 rec] .
          qed
        qed
      qed
    qed
  qed
qed

lemma do_revrange_state:
  "run_state remote None w \<Longrightarrow> do_revrange remote revrange dmn w = (r, w')
     \<Longrightarrow> run_state remote (raised r) w'"
  unfolding do_revrange_def by (rule revrange_loop_state)

lemma retry_loop_state:
  "run_state remote None w \<Longrightarrow> retry_loop fuel remote dmn redo w = (out, w')
     \<Longrightarrow> run_state remote (raised_outcome out) w'"
proof (induction fuel remote dmn redo w arbitrary: out w' rule: retry_loop.induct)
  case (1 fuel remote dmn w)
  then show ?case by auto
next
  case (2 remote dmn r rs w)
  then show ?case by auto
next
  case (3 fuel remote dmn r rs w)
  show ?case
  proof (cases "increment_all (r # rs)")
    case (Inl e)
    then show ?thesis using "3.prems" by (auto intro: run_state_None_imp)
  next
    case (Inr new_range)
    obtain g w1 where g: "do_revrange remote (map StrRev new_range) dmn w = (g, w1)"
      by fastforce
    note st = do_revrange_state[OF "3.prems"(1) g]
    show ?thesis
    proof (cases g)
      case (Inl e)
      then show ?thesis using "3.prems"(2) Inr g st by auto
    next
      case Inr2: (Inr redo)
      have rec: "retry_loop fuel remote dmn redo w1 = (out, w')"
        using "3.prems"(2) Inr g Inr2 by auto
      show ?thesis
        using "3.IH"[OF Inr g[symmetric] Inr2 _ rec] st Inr2 by simp
    qed
  qed
qed

lemma usage_state:
  assumes "run_state remote None w" "usage m w = (r, w')"
  shows "run_state remote x w'"
proof -
  have a: "run_state remote x w" using assms(1) by (rule run_state_None_imp)
  have b: "run_state remote x (emit (Stderr s) w)" for s
    using a by (rule run_state_emit) simp
  have c: "run_state remote x (emit (Stderr t) (emit (Stderr s) w))" for s t
    using b by (rule run_state_emit) simp
  show ?thesis
    using assms(2) b c by (auto simp: usage_def Let_def split: option.splits if_splits)
qed

lemma get_max_rev_unfold:
  "get_max_rev remote d w =
     (case remote (served w) (maxrev_request d) of
        Failure \<Rightarrow> (Inl RequestException, sent (maxrev_request d) w)
      | Response st content \<Rightarrow>
          if st \<noteq> 200 then (Inr PNone, emit (failed_line d) (sent (maxrev_request d) w))
          else (Inr (get_revid_from_json content), sent (maxrev_request d) w))"
  by (simp add: get_max_rev_def get_maxrev_url_def http_get_def maxrev_request_def
      failed_line_def sent_def split: reply.splits)

lemma get_max_rev_state:
  assumes "run_state remote None w" "get_max_rev remote d w = (r, w')"
  shows "run_state remote None w'"
proof -
  have f: "requests_of [failed_line d] = []" by (simp add: failed_line_def)
  show ?thesis
    using assms(2) run_state_sent_maxrev[OF assms(1), of d] f
    unfolding get_max_rev_unfold
    by (auto split: reply.splits if_splits intro: run_state_emit)
qed

lemma usage_state_snd:
  "run_state remote None w \<Longrightarrow> run_state remote None (snd (usage m w))"
  by (rule usage_state[where x = None, OF _ surjective_pairing])

lemma get_max_rev_state_snd:
  "run_state remote None w \<Longrightarrow> run_state remote None (snd (get_max_rev remote d w))"
  by (rule get_max_rev_state[OF _ surjective_pairing])

lemma check_opts_state_snd:
  assumes "run_state remote None w"
  shows "run_state remote None (snd (check_opts remote a w))"
proof -
  note u = usage_state_snd[OF assms]
  note g = get_max_rev_state_snd[OF assms]
  have g': "run_state remote None w1"
    if "get_max_rev remote d w = (x, w1)" for d x w1
    using g[of d] that by simp
  show ?thesis
    unfolding check_opts_def
    by (simp add: u assms g' split: option.splits sum.splits bool.splits prod.splits)
qed

lemma check_opts_state:
  assumes "run_state remote None w" "check_opts remote a w = (r, w')"
  shows "run_state remote None w'"
  using check_opts_state_snd[OF assms(1), of a] assms(2) by simp

lemma set_opts_state_snd:
  "run_state remote None w \<Longrightarrow> run_state remote None (snd (set_opts a opts w))"
proof (induction a opts w rule: set_opts.induct)
  case (1 a w)
  then show ?case by simp
next
  case (2 a opt val rest w)
  then show ?case by (simp add: usage_state_snd)
qed

lemma process_opts_state:
  assumes "run_state remote None w" "process_opts remote argv w = (r, w')"
  shows "run_state remote None w'"
proof (cases argv)
  case (GetoptError err)
  then show ?thesis
    using assms(2) usage_state[OF assms(1), where x = None]
    by (simp add: process_opts_def)
next
  case (Parsed options remainder)
  obtain s w1 where s: "set_opts get_default_opts options w = (s, w1)" by fastforce
  have st1: "run_state remote None w1"
    using set_opts_state_snd[OF assms(1), of get_default_opts options] s by simp
  show ?thesis
  proof (cases s)
    case (Inl e)
    then show ?thesis using assms(2) Parsed s st1 by (simp add: process_opts_def)
  next
    case (Inr a)
    show ?thesis
    proof (cases remainder)
      case Nil
      then show ?thesis
        using assms(2) Parsed s Inr check_opts_state[OF st1] by (simp add: process_opts_def)
    next
      case (Cons x xs)
      then show ?thesis
        using assms(2) Parsed s Inr usage_state[OF st1, where x = None]
        by (simp add: process_opts_def)
    qed
  qed
qed

lemma do_main_state:
  assumes "run_state remote None w" "do_main fuel remote argv w = (out, w')"
  shows "run_state remote (raised_outcome out) w'"
proof -
  obtain p w1 where p: "process_opts remote argv w = (p, w1)" by fastforce
  note st1 = process_opts_state[OF assms(1) p]
  show ?thesis
  proof (cases p)
    case (Inl e)
    then show ?thesis using assms(2) p st1
      by (auto simp: do_main_def intro: run_state_None_imp)
  next
    case (Inr a)
    define w2 where "w2 = (if verbose a then emit (PrintArgs a) w1 else w1)"
    have st2: "run_state remote None w2"
      using st1 by (auto simp: w2_def intro: run_state_emit)
    show ?thesis
    proof (cases "int_of_str (start_rev a)")
      case (Inl e)
      then show ?thesis using assms(2) p Inr st2
        by (auto simp: do_main_def w2_def intro: run_state_None_imp)
    next
      case lo: (Inr lo)
      show ?thesis
      proof (cases "py_int (end_rev a)")
        case (Inl e)
        then show ?thesis using assms(2) p Inr st2 lo
          by (auto simp: do_main_def w2_def intro: run_state_None_imp)
      next
        case hi: (Inr hi)
        obtain g w3 where g: "do_revrange remote (map IntRev (py_range lo hi 10000000))
                                (domain a) w2 = (g, w3)" by fastforce
        note st3 = do_revrange_state[OF st2 g]
        show ?thesis
        proof (cases g)
          case (Inl e)
          then show ?thesis using assms(2) p Inr lo hi g st3
            by (auto simp: do_main_def w2_def)
        next
          case redo: (Inr redo)
          define w4 where "w4 = (if redo \<noteq> [] then emit (Sleep 5) w3 else w3)"
          have st4: "run_state remote None w4"
            using st3 redo by (auto simp: w4_def intro: run_state_emit)
          have "retry_loop fuel remote (domain a) redo w4 = (out, w')"
            using assms(2) p Inr lo hi g redo by (auto simp: do_main_def w2_def w4_def)
          then show ?thesis using retry_loop_state[OF st4] by simp
        qed
      qed
    qed
  qed
qed

lemma run_state_world0: "run_state remote None world0"
  by (simp add: run_state_def world0_def)

subsection \<open>Rules that run the model on a concrete input\<close>

lemma digit_char_eval:
  "digit_char 0 = CHR ''0''" "digit_char (Suc 0) = CHR ''1''" "digit_char 1 = CHR ''1''"
  "digit_char 2 = CHR ''2''"
  "digit_char 3 = CHR ''3''" "digit_char 4 = CHR ''4''" "digit_char 5 = CHR ''5''"
  "digit_char 6 = CHR ''6''" "digit_char 7 = CHR ''7''" "digit_char 8 = CHR ''8''"
  "digit_char 9 = CHR ''9''"
  by code_simp+

lemma str_nat_digit: "n < 10 \<Longrightarrow> str_nat n = [digit_char n]"
  by (subst str_nat.simps) simp

lemma str_nat_more: "\<not> n < 10 \<Longrightarrow> str_nat n = str_nat (n div 10) @ [digit_char (n mod 10)]"
  by (subst str_nat.simps) simp

lemma revrange_loop_Nil: "revrange_loop remote dmn [] redo w = (Inr redo, w)"
  by (subst revrange_loop.simps) simp

lemma revrange_loop_Cons:
  "revrange_loop remote dmn (x # xs) redo w =
     (case get_revinfo remote (map str_revid (take 10 (x # xs))) dmn w of
        (Inl e, w1) \<Rightarrow> (Inl e, w1)
      | (Inr None, w1) \<Rightarrow> (Inl TypeError, w1)
      | (Inr (Some (revinfo, badrevs)), w1) \<Rightarrow>
          (case display_revinfo revinfo w1 of
             (Inl e, w2) \<Rightarrow> (Inl e, w2)
           | (Inr u, w2) \<Rightarrow>
               if map str_revid (take 10 (drop 10 (x # xs))) = []
               then (Inr (redo @ badrevs), w2)
               else revrange_loop remote dmn (drop 10 (x # xs)) (redo @ badrevs)
                      (emit (Sleep 5) w2)))"
  by (subst revrange_loop.simps) (simp cong: if_cong)

lemmas run_defs =
  do_main_def process_opts_def check_opts_def get_default_opts_def usage_def
  get_revinfo_unfold get_max_rev_unfold do_revrange_def display_revinfo_def
  get_revinfo_from_json_def revinfo_try_def get_revid_from_json_def revid_try_def
  py_isdigit_def py_isdigit_char_def is_ascii_digit_def digit_val_def digits_value_def
  int_of_str_def py_strip_def py_isspace_def str_int_def str_nat_digit str_nat_more
  digit_char_eval py_range_def range_len_def upt_rec py_sorted_def dict_setitem_def py_eq_def
  revrange_loop_Nil revrange_loop_Cons emit_def sent_def world0_def Let_def

subsection \<open>A fatal reply ends the run\<close>

lemma fatal_reply_run:
  assumes "do_main fuel remote argv world0 = (out, w')"
    and "i < served w'"
    and "requests_of (trace w') ! i = batch_request d b"
    and "fatal_reply (remote i (batch_request d b)) = Some e"
  shows "out = Some (Raised e) \<and> served w' = Suc i"
proof -
  have st: "run_state remote (raised_outcome out) w'"
    using do_main_state[OF run_state_world0 assms(1)] .
  then have "raised_outcome out = Some e \<and> Suc i = served w'"
    using assms(2,3,4) unfolding run_state_def by blast
  then show ?thesis
    by (cases out rule: raised_outcome.cases) auto
qed

text \<open>
  C2. The claim: on a status 200 whose body is no JSON or has an unexpected shape, the
  parse error is swallowed and turned into None for that call, and no exception
  escapes: \<^verbatim>\<open>get_revinfo\<close> and \<^verbatim>\<open>do_revrange\<close> never crash on a parse failure. The
  first half holds: \<^verbatim>\<open>get_revinfo_from_json\<close> returns None. The second does not:
  \<^verbatim>\<open>get_revinfo\<close> unpacks that None into two names, the TypeError leaves
  \<^verbatim>\<open>do_revrange\<close> and ends the run, whichever request of the run it was.
\<close>

theorem parse_failure_escapes:
  assumes "do_main fuel remote argv world0 = (out, w')"
    and "i < served w'"
    and "requests_of (trace w') ! i = batch_request d b"
    and "remote i (batch_request d b) = Response 200 content"
    and "revinfo_try content = Inl e"
  shows "get_revinfo_from_json content = RNone
       \<and> out = Some (Raised TypeError) \<and> served w' = Suc i
       \<and> (\<forall>w. served w = i \<longrightarrow>
             get_revinfo remote b (Some d) w = (Inl TypeError, sent (batch_request d b) w))
       \<and> (\<forall>w revrange.
             served w = i \<and> revrange \<noteq> [] \<and> map str_revid (take 10 revrange) = b \<longrightarrow>
             do_revrange remote revrange (Some d) w
               = (Inl TypeError, sent (batch_request d b) w))"
proof -
  have n: "get_revinfo_from_json content = RNone"
    using assms(5) by (simp add: get_revinfo_from_json_def)
  have f: "fatal_reply (remote i (batch_request d b)) = Some TypeError"
    using assms(4) n by (simp add: fatal_reply_def)
  have g: "get_revinfo remote b (Some d) w = (Inl TypeError, sent (batch_request d b) w)"
    if "served w = i" for w
    using assms(4) n that by (simp add: get_revinfo_unfold)
  have l: "do_revrange remote revrange (Some d) w
             = (Inl TypeError, sent (batch_request d b) w)"
    if "served w = i" "revrange \<noteq> []" "map str_revid (take 10 revrange) = b"
    for w revrange
    using revrange_loop_raises[OF that(2), of remote "Some d" w TypeError _ "[]"]
      g[OF that(1)] that(3)
    by (simp add: do_revrange_def)
  show ?thesis
    using fatal_reply_run[OF assms(1,2,3) f] n g l by blast
qed

theorem parse_failure_escapes_witness:
  "get_revinfo_from_json None = RNone
   \<and> fst (do_main 0 (\<lambda>n req. Response 200 None)
          (Parsed [(''-d'', ''en.wikipedia.org''), (''-e'', ''25000000'')] []) world0)
     = Some (Raised TypeError)"
proof -
  let ?remote = "\<lambda>(n::nat) (req::request). Response 200 None"
  let ?argv = "Parsed [(''-d'', ''en.wikipedia.org''), (''-e'', ''25000000'')] []"
  let ?b = "[''1'', ''10000001'', ''20000001'']"
  let ?w = "\<lparr>served = 1, trace = [HttpGet (batch_request ''en.wikipedia.org'' ?b)]\<rparr>"
  have r: "do_main 0 ?remote ?argv world0 = (Some (Raised TypeError), ?w)"
    by (simp add: run_defs)
  have h2: "0 < served ?w" by simp
  have h3: "requests_of (trace ?w) ! 0 = batch_request ''en.wikipedia.org'' ?b" by simp
  have h4: "?remote 0 (batch_request ''en.wikipedia.org'' ?b) = Response 200 None" by simp
  have h5: "revinfo_try None = Inl JSONDecodeError" by (simp add: revinfo_try_def)
  show ?thesis
    using parse_failure_escapes[OF r h2 h3 h4 h5] r by simp
qed

text \<open>
  C10. Whenever a batch request of a run gets a status other than 200,
  \<^verbatim>\<open>get_revinfo\<close> writes the failure line and returns None, the loop of
  \<^verbatim>\<open>do_revrange\<close> raises TypeError on unpacking it, and the run ends there with that
  TypeError: the request is the last one of the run.
\<close>

theorem non_200_aborts_run:
  assumes "do_main fuel remote argv world0 = (out, w')"
    and "i < served w'"
    and "requests_of (trace w') ! i = batch_request d b"
    and "remote i (batch_request d b) = Response st content"
    and "st \<noteq> 200"
  shows "out = Some (Raised TypeError) \<and> served w' = Suc i
       \<and> (\<forall>w. served w = i \<longrightarrow>
             get_revinfo remote b (Some d) w
               = (Inr None, emit (failed_line d) (sent (batch_request d b) w)))
       \<and> (\<forall>w revrange redo.
             served w = i \<and> revrange \<noteq> [] \<and> map str_revid (take 10 revrange) = b \<longrightarrow>
             revrange_loop remote (Some d) revrange redo w
               = (Inl TypeError, emit (failed_line d) (sent (batch_request d b) w)))"
proof -
  have f: "fatal_reply (remote i (batch_request d b)) = Some TypeError"
    using assms(4,5) by (simp add: fatal_reply_def)
  have g: "get_revinfo remote b (Some d) w
             = (Inr None, emit (failed_line d) (sent (batch_request d b) w))"
    if "served w = i" for w
    using assms(4,5) that by (simp add: get_revinfo_unfold)
  have l: "revrange_loop remote (Some d) revrange redo w
             = (Inl TypeError, emit (failed_line d) (sent (batch_request d b) w))"
    if "served w = i" "revrange \<noteq> []" "map str_revid (take 10 revrange) = b"
    for w revrange redo
    using revrange_loop_none[OF that(2), of remote "Some d" w _ redo] g[OF that(1)] that(3)
    by simp
  show ?thesis
    using fatal_reply_run[OF assms(1,2,3) f] g l by blast
qed

theorem non_200_aborts_run_witness:
  "fst (do_main 0 (\<lambda>n req. Response 500 None)
          (Parsed [(''-d'', ''en.wikipedia.org''), (''-e'', ''25000000'')] []) world0)
     = Some (Raised TypeError)
   \<and> served (snd (do_main 0 (\<lambda>n req. Response 500 None)
          (Parsed [(''-d'', ''en.wikipedia.org''), (''-e'', ''25000000'')] []) world0)) = 1"
proof -
  let ?remote = "\<lambda>(n::nat) (req::request). Response 500 None"
  let ?argv = "Parsed [(''-d'', ''en.wikipedia.org''), (''-e'', ''25000000'')] []"
  let ?b = "[''1'', ''10000001'', ''20000001'']"
  let ?w = "\<lparr>served = 1, trace =
      [HttpGet (batch_request ''en.wikipedia.org'' ?b), failed_line ''en.wikipedia.org'']\<rparr>"
  have r: "do_main 0 ?remote ?argv world0 = (Some (Raised TypeError), ?w)"
    by (simp add: run_defs)
  have h2: "0 < served ?w" by simp
  have h3: "requests_of (trace ?w) ! 0 = batch_request ''en.wikipedia.org'' ?b"
    by (simp add: failed_line_def)
  have h4: "?remote 0 (batch_request ''en.wikipedia.org'' ?b) = Response 500 None" by simp
  have h5: "(500::int) \<noteq> 200" by simp
  show ?thesis
    using non_200_aborts_run[OF r h2 h3 h4 h5] r by simp
qed

subsection \<open>The keys of a returned mapping\<close>

lemma py_eq_refl: "py_eq a a"
  by (simp add: py_eq_def split: option.splits)

lemma keys_dict_update:
  "map fst (dict_update d k v) =
     (if \<exists>k' \<in> set (map fst d). py_eq k' k then map fst d else map fst d @ [k])"
  by (induction d k v rule: dict_update.induct) auto

lemma distinct_dict_update:
  "distinct (map fst d) \<Longrightarrow> distinct (map fst (dict_update d k v))"
  using py_eq_refl by (auto simp: keys_dict_update simp del: set_map)

lemma distinct_add_revisions:
  "distinct (map fst d) \<Longrightarrow> add_revisions d revs = Inr d' \<Longrightarrow> distinct (map fst d')"
proof (induction d revs arbitrary: d' rule: add_revisions.induct)
  case (1 d)
  then show ?case by simp
next
  case (2 d revision rest)
  from "2.prems"(2) obtain ts revid d1 where
    a: "py_getitem revision (PStr ''timestamp'') = Inr ts"
      "py_getitem revision (PStr ''revid'') = Inr revid"
      "dict_setitem d revid ts = Inr d1" "add_revisions d1 rest = Inr d'"
    by (auto split: sum.splits)
  have "d1 = dict_update d revid ts"
    using a(3) by (auto simp: dict_setitem_def split: if_splits)
  then have "distinct (map fst d1)"
    using "2.prems"(1) by (simp add: distinct_dict_update)
  then show ?case using "2.IH"[OF a(1) a(2) a(3) _ a(4)] by simp
qed

lemma distinct_add_pages:
  "distinct (map fst d) \<Longrightarrow> add_pages pages d ps = Inr d' \<Longrightarrow> distinct (map fst d')"
proof (induction pages d ps arbitrary: d' rule: add_pages.induct)
  case (1 pages d)
  then show ?case by simp
next
  case (2 pages d page rest)
  from "2.prems"(2) obtain p revisions revs d1 where
    a: "py_getitem pages page = Inr p" "py_getitem p (PStr ''revisions'') = Inr revisions"
      "py_iter revisions = Inr revs" "add_revisions d revs = Inr d1"
      "add_pages pages d1 rest = Inr d'"
    by (auto split: sum.splits)
  have "distinct (map fst d1)"
    using distinct_add_revisions[OF "2.prems"(1) a(4)] .
  then show ?case using "2.IH"[OF a(1) a(2) a(3) a(4) _ a(5)] by simp
qed

lemma revinfo_try_distinct:
  "revinfo_try content = Inr (RTuple d b) \<Longrightarrow> distinct (map fst d)"
  by (auto simp: revinfo_try_def split: option.splits sum.splits bool.splits
      dest: distinct_add_pages[rotated])

lemma get_revinfo_distinct:
  assumes "get_revinfo remote revids dmn w = (Inr (Some (revinfo, badrevs)), w1)"
  shows "distinct (map fst revinfo)"
proof -
  obtain content where "get_revinfo_from_json content = RTuple revinfo badrevs"
    using assms
    by (auto simp: get_revinfo_def get_revids_url_def http_get_def
        split: option.splits sum.splits reply.splits if_splits revinfo_result.splits prod.splits)
  then have "revinfo_try content = Inr (RTuple revinfo badrevs)"
    by (auto simp: get_revinfo_from_json_def split: sum.splits)
  then show ?thesis by (rule revinfo_try_distinct)
qed

subsection \<open>Printing a mapping with integer keys\<close>

lemma is_int_cases: "is_int k \<Longrightarrow> \<exists>i. k = PInt i"
  by (cases k) auto

lemma dict_getitem_int:
  "list_all is_int (map fst d) \<Longrightarrow> is_int k \<Longrightarrow> k \<in> set (map fst d)
     \<Longrightarrow> dict_getitem d k = Inr (the (map_of d k))"
proof (induction d)
  case Nil
  then show ?case by simp
next
  case (Cons kv d)
  obtain k' v' where kv: "kv = (k', v')" by fastforce
  obtain i where i: "k = PInt i" using Cons.prems(2) is_int_cases by blast
  obtain j where j: "k' = PInt j" using Cons.prems(1) kv is_int_cases by auto
  show ?case
    using Cons kv i j by (auto simp: py_eq_def)
qed

lemma print_revs_int:
  "list_all is_int (map fst d) \<Longrightarrow> list_all is_int ks \<Longrightarrow> set ks \<subseteq> set (map fst d)
     \<Longrightarrow> print_revs d ks w
           = (Inr (), w\<lparr>trace := trace w @ map (\<lambda>k. PrintRev k (the (map_of d k))) ks\<rparr>)"
proof (induction ks arbitrary: w)
  case Nil
  then show ?case by simp
next
  case (Cons k ks)
  have g: "dict_getitem d k = Inr (the (map_of d k))"
    using Cons.prems by (intro dict_getitem_int) auto
  show ?case
    using Cons g by (simp add: emit_def)
qed

lemma sort_key_short: "length xs \<le> 1 \<Longrightarrow> sort_key f xs = xs"
  by (cases xs) auto

lemma py_sorted_int:
  assumes "list_all is_int ks"
  shows "py_sorted ks = Inr (sort_key int_key ks)"
proof -
  have "list_all (\<lambda>x. int_like x \<noteq> None) ks"
    using assms by (induction ks) (auto dest: is_int_cases)
  then show ?thesis
    by (simp add: py_sorted_def sort_key_short)
qed

lemma display_revinfo_int:
  assumes "list_all is_int (map fst d)"
  shows "display_revinfo d w
           = (Inr (), w\<lparr>trace := trace w @
                map (\<lambda>k. PrintRev k (the (map_of d k))) (sort_key int_key (map fst d))\<rparr>)"
proof -
  have a: "list_all is_int (sort_key int_key (map fst d))"
    using assms by (simp add: list_all_iff)
  have b: "set (sort_key int_key (map fst d)) \<subseteq> set (map fst d)" by simp
  show ?thesis
    using print_revs_int[OF assms a b] py_sorted_int[OF assms]
    by (simp add: display_revinfo_def)
qed

lemma int_key_inj: "is_int a \<Longrightarrow> is_int b \<Longrightarrow> int_key a = int_key b \<Longrightarrow> a = b"
  by (auto dest!: is_int_cases)

lemma sorted_lines:
  assumes "list_all is_int (map fst d)" "distinct (map fst d)"
  defines "ls \<equiv> map (\<lambda>k. (k, the (map_of d k))) (sort_key int_key (map fst d))"
  shows "set ls = set d" "length ls = length d"
    "sorted_wrt (<) (map (\<lambda>kv. int_key (fst kv)) ls)"
proof -
  have m: "the (map_of d k) = v" if "(k, v) \<in> set d" for k v
    using assms(2) that by simp
  show "set ls = set d"
  proof
    show "set ls \<subseteq> set d"
      unfolding ls_def using m by (auto; force)
    show "set d \<subseteq> set ls"
      unfolding ls_def using m by (auto; force)
  qed
  show "length ls = length d" by (simp add: ls_def)
  have inj: "inj_on int_key (set (map fst d))"
    using assms(1) by (auto simp: inj_on_def list_all_iff intro: int_key_inj)
  have "distinct (map int_key (sort_key int_key (map fst d)))"
    using assms(2) inj by (subst distinct_map) simp
  moreover have "sorted (map int_key (sort_key int_key (map fst d)))"
    by (rule sorted_sort_key)
  ultimately have "sorted_wrt (<) (map int_key (sort_key int_key (map fst d)))"
    by (simp add: strict_sorted_iff)
  then show "sorted_wrt (<) (map (\<lambda>kv. int_key (fst kv)) ls)"
    by (simp add: ls_def comp_def)
qed

text \<open>
  C7. For every mapping a batch lookup returns whose keys are integers (revision ids
  are integers), \<^verbatim>\<open>display_revinfo\<close> prints one line per entry, the entries in
  strictly ascending order of their revision ids, whatever the order in which the
  response listed them; the line of an id with a string timestamp is the id, a
  space, the timestamp.
\<close>

theorem display_revinfo_ascending:
  assumes "get_revinfo remote revids dmn w0 = (Inr (Some (revinfo, badrevs)), w1)"
    and "list_all is_int (map fst revinfo)"
  shows "\<exists>lines.
           display_revinfo revinfo w
             = (Inr (), w\<lparr>trace := trace w @ map (\<lambda>kv. PrintRev (fst kv) (snd kv)) lines\<rparr>)
         \<and> set lines = set revinfo \<and> length lines = length revinfo
         \<and> sorted_wrt (<) (map (\<lambda>kv. int_key (fst kv)) lines)
         \<and> (\<forall>kv \<in> set lines. is_str (snd kv) \<longrightarrow>
               print_text (fst kv) (snd kv)
                 = Some (str_int (int_key (fst kv)) @ '' '' @ str_key (snd kv) @ ''\<newline>''))"
proof -
  let ?ls = "map (\<lambda>k. (k, the (map_of revinfo k))) (sort_key int_key (map fst revinfo))"
  have d: "distinct (map fst revinfo)"
    using get_revinfo_distinct[OF assms(1)] .
  note sl = sorted_lines[OF assms(2) d]
  have p: "display_revinfo revinfo w
             = (Inr (), w\<lparr>trace := trace w @ map (\<lambda>kv. PrintRev (fst kv) (snd kv)) ?ls\<rparr>)"
    using display_revinfo_int[OF assms(2), of w] by (simp add: comp_def)
  have t: "print_text (fst kv) (snd kv)
             = Some (str_int (int_key (fst kv)) @ '' '' @ str_key (snd kv) @ ''\<newline>'')"
    if a: "kv \<in> set ?ls" and b: "is_str (snd kv)" for kv
  proof -
    have "kv \<in> set revinfo" using a sl(1) by simp
    then have "is_int (fst kv)" using assms(2) by (auto simp: list_all_iff)
    then obtain i where i: "fst kv = PInt i" using is_int_cases by blast
    obtain s where s: "snd kv = PStr s" using b by (cases "snd kv") auto
    show ?thesis by (simp add: print_text_def i s)
  qed
  show ?thesis
    using p sl t by blast
qed

theorem display_revinfo_ascending_witness:
  "(\<exists>lines.
      display_revinfo [(PInt 20, PStr ''2001-05-01T10:00:00Z''), (PInt 3, PStr ''2001-01-21T02:12:21Z'')] world0
        = (Inr (), world0\<lparr>trace := trace world0 @ map (\<lambda>kv. PrintRev (fst kv) (snd kv)) lines\<rparr>)
      \<and> sorted_wrt (<) (map (\<lambda>kv. int_key (fst kv)) lines))
   \<and> display_revinfo [(PInt 20, PStr ''2001-05-01T10:00:00Z''), (PInt 3, PStr ''2001-01-21T02:12:21Z'')] world0
        = (Inr (), \<lparr>served = 0, trace = [PrintRev (PInt 3) (PStr ''2001-01-21T02:12:21Z''),
                                         PrintRev (PInt 20) (PStr ''2001-05-01T10:00:00Z'')]\<rparr>)"
proof -
  let ?d = "[(PInt 20, PStr ''2001-05-01T10:00:00Z''), (PInt 3, PStr ''2001-01-21T02:12:21Z'')]"
  let ?body = "PDict [(''query'', PDict [(''pages'', PDict
      [(''736'', PDict [(''revisions'', PList
          [PDict [(''revid'', PInt 20), (''timestamp'', PStr ''2001-05-01T10:00:00Z'')]])]),
       (''12'', PDict [(''revisions'', PList
          [PDict [(''revid'', PInt 3), (''timestamp'', PStr ''2001-01-21T02:12:21Z'')]])])])])]"
  let ?remote = "\<lambda>(n::nat) (req::request). Response 200 (Some ?body)"
  have h1: "get_revinfo ?remote [''3'', ''20''] (Some ''en.wikipedia.org'') world0
              = (Inr (Some (?d, [])), sent (batch_request ''en.wikipedia.org'' [''3'', ''20'']) world0)"
    by (simp add: run_defs)
  have h2: "list_all is_int (map fst ?d)" by simp
  have e: "display_revinfo ?d world0
        = (Inr (), \<lparr>served = 0, trace = [PrintRev (PInt 3) (PStr ''2001-01-21T02:12:21Z''),
                                         PrintRev (PInt 20) (PStr ''2001-05-01T10:00:00Z'')]\<rparr>)"
    by (simp add: run_defs)
  show ?thesis
    using display_revinfo_ascending[OF h1 h2, of world0] e by blast
qed

subsection \<open>The candidate ids\<close>

lemma le_div_int:
  assumes "(0::int) < step"
  shows "k \<le> a div step \<longleftrightarrow> k * step \<le> a"
proof
  assume "k \<le> a div step"
  then have "k * step \<le> (a div step) * step"
    using assms by (simp add: mult_right_mono)
  also have "\<dots> \<le> a"
  proof -
    have "a = (a div step) * step + a mod step" by simp
    moreover have "0 \<le> a mod step" using assms by simp
    ultimately show ?thesis by linarith
  qed
  finally show "k * step \<le> a" .
next
  assume "k * step \<le> a"
  then have "(k * step) div step \<le> a div step"
    using assms by (rule zdiv_mono1)
  then show "k \<le> a div step" using assms by simp
qed

lemma range_len_less:
  assumes "0 < step"
  shows "k < range_len lo hi step \<longleftrightarrow> lo + int k * step < hi"
proof (cases "lo < hi")
  case False
  have "0 \<le> int k * step" using assms by simp
  then show ?thesis using False by (simp add: range_len_def)
next
  case True
  have a: "int k \<le> (hi - 1 - lo) div step \<longleftrightarrow> int k * step \<le> hi - 1 - lo"
    using assms by (rule le_div_int)
  have "0 \<le> (hi - 1 - lo) div step"
    using assms True by (simp add: pos_imp_zdiv_nonneg_iff)
  then have "k < range_len lo hi step \<longleftrightarrow> int k \<le> (hi - 1 - lo) div step"
    using True by (auto simp: range_len_def)
  then show ?thesis using a by auto
qed

lemma py_range_mem:
  assumes "0 < step"
  shows "x \<in> set (py_range lo hi step) \<longleftrightarrow> (\<exists>k::nat. x = lo + int k * step \<and> x < hi)"
proof -
  have "x \<in> set (py_range lo hi step) \<longleftrightarrow> (\<exists>k < range_len lo hi step. x = lo + int k * step)"
    by (auto simp: py_range_def)
  also have "\<dots> \<longleftrightarrow> (\<exists>k::nat. x = lo + int k * step \<and> x < hi)"
    using range_len_less[OF assms, of _ lo hi] by blast
  finally show ?thesis .
qed

lemma py_range_nth:
  "k < length (py_range lo hi step) \<Longrightarrow> py_range lo hi step ! k = lo + int k * step"
  by (simp add: py_range_def)

lemma py_range_ascending:
  assumes "0 < step"
  shows "sorted_wrt (<) (py_range lo hi step)"
proof -
  have "lo + int i * step < lo + int j * step" if "i < j" for i j :: nat
    using assms that by simp
  then show ?thesis
    unfolding py_range_def sorted_wrt_map
    by (simp add: sorted_wrt_iff_nth_less)
qed

subsection \<open>The requests of a pass\<close>

lemma batches_Nil: "batches [] = []"
  by (subst batches.simps) simp

lemma batches_Cons: "xs \<noteq> [] \<Longrightarrow> batches xs = take 10 xs # batches (drop 10 xs)"
  by (subst batches.simps) simp

lemma concat_batches: "concat (batches xs) = xs"
proof (induction xs rule: batches.induct)
  case (1 xs)
  show ?case
  proof (cases "xs = []")
    case True
    then show ?thesis by (simp add: batches_Nil)
  next
    case False
    then show ?thesis using 1 by (simp add: batches_Cons)
  qed
qed

lemma batches_bounds: "b \<in> set (batches xs) \<Longrightarrow> b \<noteq> [] \<and> length b \<le> 10"
proof (induction xs rule: batches.induct)
  case (1 xs)
  show ?case
  proof (cases "xs = []")
    case True
    then show ?thesis using "1.prems" by (simp add: batches_Nil)
  next
    case False
    have "batches xs = take 10 xs # batches (drop 10 xs)"
      using False by (rule batches_Cons)
    then have "b = take 10 xs \<or> b \<in> set (batches (drop 10 xs))"
      using "1.prems" by simp
    then show ?thesis
    proof
      assume "b = take 10 xs"
      then show ?thesis using False by simp
    next
      assume "b \<in> set (batches (drop 10 xs))"
      then show ?thesis using "1.IH"[OF False] by simp
    qed
  qed
qed

lemma print_revs_requests:
  "requests_of (trace (snd (print_revs d ks w))) = requests_of (trace w)"
proof (induction ks arbitrary: w)
  case Nil
  then show ?case by simp
next
  case (Cons k ks)
  show ?case
    by (cases "dict_getitem d k") (simp_all add: Cons emit_def requests_of_append)
qed

lemma display_revinfo_requests:
  "requests_of (trace (snd (display_revinfo d w))) = requests_of (trace w)"
  by (cases "py_sorted (map fst d)") (simp_all add: display_revinfo_def print_revs_requests)

lemma get_revinfo_requests:
  "requests_of (trace (snd (get_revinfo remote b (Some d) w)))
     = requests_of (trace w) @ [batch_request d b]"
  by (simp add: get_revinfo_unfold sent_def emit_def requests_of_append failed_line_def
      split: reply.splits revinfo_result.splits)

lemma revrange_loop_requests:
  "revrange_loop remote (Some d) revrange redo w = (r, w') \<Longrightarrow>
     \<exists>m \<le> length (batches (map str_revid revrange)).
        requests_of (trace w')
          = requests_of (trace w) @ map (batch_request d) (take m (batches (map str_revid revrange)))
        \<and> (\<forall>redo'. r = Inr redo' \<longrightarrow> m = length (batches (map str_revid revrange)))"
proof (induction remote "Some d" revrange redo w arbitrary: r w' rule: revrange_loop.induct)
  case (1 remote revrange redo w)
  let ?ids = "map str_revid revrange"
  let ?b = "map str_revid (take 10 revrange)"
  let ?rest = "map str_revid (drop 10 revrange)"
  show ?case
  proof (cases revrange)
    case Nil
    then show ?thesis using "1.prems" by (simp add: revrange_loop_Nil batches_Nil)
  next
    case (Cons x xs)
    then have ne: "?ids \<noteq> []" by simp
    have bt: "batches ?ids = ?b # batches ?rest"
      using batches_Cons[OF ne] by (simp add: take_map drop_map)
    obtain g w1 where g: "get_revinfo remote ?b (Some d) w = (g, w1)"
      by fastforce
    have rq1: "requests_of (trace w1) = requests_of (trace w) @ [batch_request d ?b]"
      using get_revinfo_requests[of remote ?b d w] g by simp
    have unf: "revrange_loop remote (Some d) revrange redo w =
       (case (g, w1) of
        (Inl e, w1) \<Rightarrow> (Inl e, w1)
      | (Inr None, w1) \<Rightarrow> (Inl TypeError, w1)
      | (Inr (Some (revinfo, badrevs)), w1) \<Rightarrow>
          (case display_revinfo revinfo w1 of
             (Inl e, w2) \<Rightarrow> (Inl e, w2)
           | (Inr u, w2) \<Rightarrow>
               if map str_revid (take 10 (drop 10 revrange)) = []
               then (Inr (redo @ badrevs), w2)
               else revrange_loop remote (Some d) (drop 10 revrange) (redo @ badrevs)
                      (emit (Sleep 5) w2)))"
      unfolding g[symmetric] Cons by (rule revrange_loop_Cons)
    have one: "\<exists>m \<le> length (batches ?ids).
        requests_of (trace w')
          = requests_of (trace w) @ map (batch_request d) (take m (batches ?ids))
        \<and> (\<forall>redo'. r = Inr redo' \<longrightarrow> m = length (batches ?ids))"
      if a: "requests_of (trace w') = requests_of (trace w1)"
        and b: "\<forall>redo'. r = Inr redo' \<longrightarrow> drop 10 revrange = []"
    proof -
      have "requests_of (trace w')
              = requests_of (trace w) @ map (batch_request d) (take 1 (batches ?ids))"
        using a rq1 by (simp add: bt)
      moreover have "1 \<le> length (batches ?ids)" by (simp add: bt)
      moreover have "\<forall>redo'. r = Inr redo' \<longrightarrow> 1 = length (batches ?ids)"
        using b by (auto simp: bt batches_Nil)
      ultimately show ?thesis by blast
    qed
    show ?thesis
    proof (cases g)
      case (Inl e)
      then have "r = Inl e" "w' = w1"
        using "1.prems" unf by simp_all
      then show ?thesis by (intro one) simp_all
    next
      case (Inr o1)
      show ?thesis
      proof (cases o1)
        case None
        then have "r = Inl TypeError" "w' = w1"
          using "1.prems" unf Inr by simp_all
        then show ?thesis by (intro one) simp_all
      next
        case (Some p)
        obtain revinfo badrevs where p: "p = (revinfo, badrevs)" by fastforce
        obtain dr' w2 where d2: "display_revinfo revinfo w1 = (dr', w2)" by fastforce
        have rq2: "requests_of (trace w2) = requests_of (trace w1)"
          using display_revinfo_requests[of revinfo w1] d2 by simp
        show ?thesis
        proof (cases dr')
          case (Inl e)
          then have "r = Inl e" "w' = w2"
            using "1.prems" unf \<open>g = Inr o1\<close> Some p d2 by simp_all
          then show ?thesis using rq2 by (intro one) simp_all
        next
          case Inr2: (Inr u)
          show ?thesis
          proof (cases "drop 10 revrange = []")
            case True
            then have "r = Inr (redo @ badrevs)" "w' = w2"
              using "1.prems" unf \<open>g = Inr o1\<close> Some p d2 Inr2 by simp_all
            then show ?thesis using rq2 True by (intro one) simp_all
          next
            case False
            then have nb: "map str_revid (take 10 (drop 10 revrange)) \<noteq> []"
              by (cases "drop 10 revrange") auto
            have rec: "revrange_loop remote (Some d) (drop 10 revrange) (redo @ badrevs)
                         (emit (Sleep 5) w2) = (r, w')"
              using "1.prems" unf \<open>g = Inr o1\<close> Some p d2 Inr2 nb by simp
            have nb0: "?b \<noteq> []" using Cons by simp
            from "1.hyps"[OF nb0 g[symmetric] \<open>g = Inr o1\<close> Some p[symmetric] d2[symmetric]
                Inr2 nb rec]
            obtain m where m: "m \<le> length (batches ?rest)"
              "requests_of (trace w')
                 = requests_of (trace (emit (Sleep 5) w2))
                   @ map (batch_request d) (take m (batches ?rest))"
              "\<forall>redo'. r = Inr redo' \<longrightarrow> m = length (batches ?rest)"
              by blast
            have sl: "requests_of (trace (emit (Sleep 5) w2)) = requests_of (trace w1)"
              using rq2 by (simp add: emit_def requests_of_append)
            have "Suc m \<le> length (batches ?ids)" using m(1) by (simp add: bt)
            moreover have "requests_of (trace w')
                 = requests_of (trace w) @ map (batch_request d) (take (Suc m) (batches ?ids))"
              using m(2) sl rq1 by (simp add: bt)
            moreover have "\<forall>redo'. r = Inr redo' \<longrightarrow> Suc m = length (batches ?ids)"
              using m(3) by (simp add: bt)
            ultimately show ?thesis by blast
          qed
        qed
      qed
    qed
  qed
qed

lemma do_revrange_requests:
  "\<exists>m \<le> length (batches (map str_revid revrange)).
      requests_of (trace (snd (do_revrange remote revrange (Some d) w)))
        = requests_of (trace w) @ map (batch_request d) (take m (batches (map str_revid revrange)))
      \<and> (\<forall>redo. fst (do_revrange remote revrange (Some d) w) = Inr redo
             \<longrightarrow> m = length (batches (map str_revid revrange)))"
  using revrange_loop_requests[of remote d revrange "[]" w
      "fst (do_revrange remote revrange (Some d) w)" "snd (do_revrange remote revrange (Some d) w)"]
  by (simp add: do_revrange_def)

lemma retry_loop_requests:
  "\<exists>rest. requests_of (trace (snd (retry_loop fuel remote (Some d) redo w)))
            = requests_of (trace w) @ rest"
proof (induction fuel remote "Some d" redo w rule: retry_loop.induct)
  case (1 fuel remote w)
  then show ?case by simp
next
  case (2 remote r rs w)
  then show ?case by simp
next
  case (3 fuel remote r rs w)
  show ?case
  proof (cases "increment_all (r # rs)")
    case (Inl e)
    then show ?thesis by simp
  next
    case (Inr new_range)
    obtain g w1 where g: "do_revrange remote (map StrRev new_range) (Some d) w = (g, w1)"
      by fastforce
    obtain m where m: "requests_of (trace w1) = requests_of (trace w) @
        map (batch_request d) (take m (batches (map str_revid (map StrRev new_range))))"
      using do_revrange_requests[of "map StrRev new_range" remote d w] g by auto
    show ?thesis
    proof (cases g)
      case (Inl e)
      then show ?thesis using Inr g m by simp
    next
      case Inr2: (Inr redo)
      from "3.hyps"[OF Inr g[symmetric] Inr2]
      obtain rest where "requests_of (trace (snd (retry_loop fuel remote (Some d) redo w1)))
            = requests_of (trace w1) @ rest" by blast
      then show ?thesis using Inr g Inr2 m by simp
    qed
  qed
qed

subsection \<open>Reading back a printed integer\<close>

lemma digit_char_props:
  assumes "d < 10"
  shows "is_ascii_digit (digit_char d)" "digit_val (digit_char d) = d"
    "\<not> py_isspace (digit_char d)" "digit_char d \<noteq> CHR ''-''" "digit_char d \<noteq> CHR ''+''"
    "digit_char d \<noteq> CHR ''_''"
proof -
  have "d = 0 \<or> d = 1 \<or> d = 2 \<or> d = 3 \<or> d = 4 \<or> d = 5 \<or> d = 6 \<or> d = 7 \<or> d = 8 \<or> d = 9"
    using assms by arith
  then show "is_ascii_digit (digit_char d)" "digit_val (digit_char d) = d"
    "\<not> py_isspace (digit_char d)" "digit_char d \<noteq> CHR ''-''" "digit_char d \<noteq> CHR ''+''"
    "digit_char d \<noteq> CHR ''_''"
    by (auto simp: digit_char_eval is_ascii_digit_def digit_val_def py_isspace_def)
qed

lemma str_nat_digits: "str_nat n \<noteq> [] \<and> list_all (\<lambda>c. \<exists>d < 10. c = digit_char d) (str_nat n)"
proof (induction n rule: str_nat.induct)
  case (1 n)
  show ?case
  proof (cases "n < 10")
    case True
    then show ?thesis by (auto simp: str_nat_digit)
  next
    case False
    have "\<exists>d < 10. digit_char (n mod 10) = digit_char d"
      by (rule exI[of _ "n mod 10"]) simp
    then show ?thesis using 1[OF False] False by (simp add: str_nat_more)
  qed
qed

lemma digits_ok_all:
  "cs \<noteq> [] \<Longrightarrow> list_all (\<lambda>c. \<exists>d < 10. c = digit_char d) cs \<Longrightarrow> digits_ok cs"
proof (induction cs rule: digits_ok.induct)
  case 1
  then show ?case by simp
next
  case (2 c)
  then show ?case by (auto simp: digit_char_props)
next
  case (3 c d cs)
  then show ?case by (auto simp: digit_char_props)
qed

lemma filter_digits_all:
  "list_all (\<lambda>c. \<exists>d < 10. c = digit_char d) cs \<Longrightarrow> filter is_ascii_digit cs = cs"
  by (induction cs) (auto simp: digit_char_props)

lemma digits_value_str_nat: "digits_value (str_nat n) = n"
proof (induction n rule: str_nat.induct)
  case (1 n)
  show ?case
  proof (cases "n < 10")
    case True
    then show ?thesis
      by (simp add: str_nat_digit digits_value_def digit_char_props)
  next
    case False
    have m: "n mod 10 < 10" by simp
    have f: "filter is_ascii_digit (str_nat (n div 10)) = str_nat (n div 10)"
      using str_nat_digits[of "n div 10"] by (simp add: filter_digits_all)
    have ih: "digits_value (str_nat (n div 10)) = n div 10" using 1[OF False] .
    have "digits_value (str_nat n)
            = 10 * digits_value (str_nat (n div 10)) + digit_val (digit_char (n mod 10))"
      using False m f by (simp add: str_nat_more digits_value_def digit_char_props)
    then show ?thesis using ih m by (simp add: digit_char_props)
  qed
qed

lemma py_strip_id:
  assumes "s \<noteq> []" "\<not> py_isspace (hd s)" "\<not> py_isspace (last s)"
  shows "py_strip s = s"
proof -
  have a: "dropWhile py_isspace s = s"
    using assms(1,2) by (cases s) auto
  have "dropWhile py_isspace (rev s) = rev s"
    using assms(1,3) by (cases "rev s") (auto simp: hd_rev[symmetric])
  then show ?thesis using a by (simp add: py_strip_def)
qed


lemma str_nat_ends:
  "\<not> py_isspace (hd (str_nat n))" "\<not> py_isspace (last (str_nat n))"
  "hd (str_nat n) \<noteq> CHR ''-''" "hd (str_nat n) \<noteq> CHR ''+''"
proof -
  have a: "str_nat n \<noteq> []" "list_all (\<lambda>c. \<exists>d < 10. c = digit_char d) (str_nat n)"
    using str_nat_digits[of n] by simp_all
  have "hd (str_nat n) \<in> set (str_nat n)" "last (str_nat n) \<in> set (str_nat n)"
    using a(1) by simp_all
  then obtain d e where "d < 10" "hd (str_nat n) = digit_char d"
    "e < 10" "last (str_nat n) = digit_char e"
    using a(2) unfolding list_all_iff by blast
  then show "\<not> py_isspace (hd (str_nat n))" "\<not> py_isspace (last (str_nat n))"
    "hd (str_nat n) \<noteq> CHR ''-''" "hd (str_nat n) \<noteq> CHR ''+''"
    by (simp_all add: digit_char_props)
qed

lemma int_of_str_nat: "int_of_str (str_nat n) = Inr (int n)"
proof -
  have a: "str_nat n \<noteq> []" "list_all (\<lambda>c. \<exists>d < 10. c = digit_char d) (str_nat n)"
    using str_nat_digits[of n] by simp_all
  have s: "py_strip (str_nat n) = str_nat n"
    using a(1) str_nat_ends by (intro py_strip_id)
  obtain c cs where c: "str_nat n = c # cs" using a(1) by (cases "str_nat n") auto
  have "c \<noteq> CHR ''-''" "c \<noteq> CHR ''+''"
    using str_nat_ends(3,4)[of n] c by simp_all
  moreover have "digits_ok (c # cs)" using digits_ok_all[OF a] c by simp
  moreover have "digits_value (c # cs) = n" using digits_value_str_nat[of n] c by simp
  ultimately show ?thesis using s c by (simp add: int_of_str_def)
qed

lemma int_of_str_int: "int_of_str (str_int i) = Inr i"
proof (cases "i < 0")
  case False
  then show ?thesis using int_of_str_nat[of "nat i"] by (simp add: str_int_def)
next
  case True
  let ?n = "nat (- i)"
  have a: "str_nat ?n \<noteq> []" "list_all (\<lambda>c. \<exists>d < 10. c = digit_char d) (str_nat ?n)"
    using str_nat_digits[of ?n] by simp_all
  have sp: "\<not> py_isspace CHR ''-''" by (simp add: py_isspace_def)
  have "py_strip (CHR ''-'' # str_nat ?n) = CHR ''-'' # str_nat ?n"
    using a(1) str_nat_ends(2)[of ?n] sp by (intro py_strip_id) simp_all
  moreover have "digits_ok (str_nat ?n)" using digits_ok_all[OF a] .
  moreover have "digits_value (str_nat ?n) = ?n" by (rule digits_value_str_nat)
  ultimately show ?thesis using True by (simp add: int_of_str_def str_int_def)
qed

lemma increment_all_ok:
  "map int_of_str redo = map Inr ns
     \<Longrightarrow> increment_all redo = Inr (map (\<lambda>n. str_int (n + 1)) ns)"
proof (induction redo arbitrary: ns)
  case Nil
  then show ?case by simp
next
  case (Cons r redo)
  then obtain n ns' where "ns = n # ns'" "int_of_str r = Inr n"
    "map int_of_str redo = map Inr ns'"
    by (cases ns) auto
  then show ?case using Cons.IH[of ns'] by simp
qed

subsection \<open>Replies a pass gets through\<close>

lemma hashable_dict_update:
  "list_all py_hashable (map fst d) \<Longrightarrow> py_hashable k
     \<Longrightarrow> list_all py_hashable (map fst (dict_update d k v))"
  by (simp add: keys_dict_update del: set_map)

lemma hashable_add_revisions:
  "list_all py_hashable (map fst d) \<Longrightarrow> add_revisions d revs = Inr d'
     \<Longrightarrow> list_all py_hashable (map fst d')"
proof (induction d revs arbitrary: d' rule: add_revisions.induct)
  case (1 d)
  then show ?case by simp
next
  case (2 d revision rest)
  from "2.prems"(2) obtain ts revid d1 where
    a: "py_getitem revision (PStr ''timestamp'') = Inr ts"
      "py_getitem revision (PStr ''revid'') = Inr revid"
      "dict_setitem d revid ts = Inr d1" "add_revisions d1 rest = Inr d'"
    by (auto split: sum.splits)
  have "d1 = dict_update d revid ts" "py_hashable revid"
    using a(3) by (auto simp: dict_setitem_def split: if_splits)
  then have "list_all py_hashable (map fst d1)"
    using "2.prems"(1) by (simp add: hashable_dict_update)
  then show ?case using "2.IH"[OF a(1) a(2) a(3) _ a(4)] by simp
qed

lemma hashable_add_pages:
  "list_all py_hashable (map fst d) \<Longrightarrow> add_pages pages d ps = Inr d'
     \<Longrightarrow> list_all py_hashable (map fst d')"
proof (induction pages d ps arbitrary: d' rule: add_pages.induct)
  case (1 pages d)
  then show ?case by simp
next
  case (2 pages d page rest)
  from "2.prems"(2) obtain p revisions revs d1 where
    a: "py_getitem pages page = Inr p" "py_getitem p (PStr ''revisions'') = Inr revisions"
      "py_iter revisions = Inr revs" "add_revisions d revs = Inr d1"
      "add_pages pages d1 rest = Inr d'"
    by (auto split: sum.splits)
  have "list_all py_hashable (map fst d1)"
    using hashable_add_revisions[OF "2.prems"(1) a(4)] .
  then show ?case using "2.IH"[OF a(1) a(2) a(3) a(4) _ a(5)] by simp
qed

lemma get_revinfo_from_json_hashable:
  assumes "get_revinfo_from_json content = RTuple d b"
  shows "list_all py_hashable (map fst d)"
proof -
  have "revinfo_try content = Inr (RTuple d b)"
    using assms by (auto simp: get_revinfo_from_json_def split: sum.splits)
  then show ?thesis
    by (auto simp: revinfo_try_def split: option.splits sum.splits bool.splits
        dest: hashable_add_pages[rotated])
qed

lemma dict_getitem_present:
  "py_hashable k \<Longrightarrow> k \<in> set (map fst d) \<Longrightarrow> \<exists>v. dict_getitem d k = Inr v"
proof (induction d)
  case Nil
  then show ?case by simp
next
  case (Cons kv d)
  obtain k' v' where kv: "kv = (k', v')" by fastforce
  show ?case
  proof (cases "py_eq k' k")
    case True
    then show ?thesis using Cons.prems(1) kv by simp
  next
    case False
    then have "k' \<noteq> k" using py_eq_refl by auto
    then show ?thesis using Cons kv False by auto
  qed
qed

lemma print_revs_ok:
  "list_all py_hashable ks \<Longrightarrow> set ks \<subseteq> set (map fst d) \<Longrightarrow> fst (print_revs d ks w) = Inr ()"
proof (induction ks arbitrary: w)
  case Nil
  then show ?case by simp
next
  case (Cons k ks)
  obtain v where "dict_getitem d k = Inr v"
    using dict_getitem_present[of k d] Cons.prems by auto
  then show ?case using Cons by simp
qed

lemma py_sorted_set: "py_sorted xs = Inr ks \<Longrightarrow> set ks = set xs"
  by (auto simp: py_sorted_def split: if_splits)

lemma display_revinfo_fst:
  assumes "list_all py_hashable (map fst d)"
  shows "(fst (display_revinfo d w) = Inr ()) = (\<exists>ks. py_sorted (map fst d) = Inr ks)"
proof (cases "py_sorted (map fst d)")
  case (Inl e)
  then show ?thesis by (simp add: display_revinfo_def)
next
  case (Inr ks)
  have s: "set ks = set (map fst d)" using py_sorted_set[OF Inr] .
  then have "list_all py_hashable ks" using assms by (simp add: list_all_iff)
  then have "fst (print_revs d ks w) = Inr ()" using s by (intro print_revs_ok) simp_all
  then show ?thesis using Inr by (simp add: display_revinfo_def)
qed

lemma print_revs_served: "served (snd (print_revs d ks w)) = served w"
proof (induction ks arbitrary: w)
  case Nil
  then show ?case by simp
next
  case (Cons k ks)
  show ?case by (cases "dict_getitem d k") (simp_all add: Cons emit_def)
qed

lemma display_revinfo_served: "served (snd (display_revinfo d w)) = served w"
  by (cases "py_sorted (map fst d)") (simp_all add: display_revinfo_def print_revs_served)

lemma get_revinfo_served: "served (snd (get_revinfo remote b (Some d) w)) = Suc (served w)"
  by (simp add: get_revinfo_unfold sent_def emit_def split: reply.splits revinfo_result.splits)

lemma batch_ok_iff:
  assumes "get_revinfo remote b (Some d) w = (g, w1)"
  shows "batch_ok remote d (served w) b
           = (\<exists>revinfo bad. g = Inr (Some (revinfo, bad))
                \<and> fst (display_revinfo revinfo w1) = Inr ())"
proof (cases "remote (served w) (batch_request d b)")
  case Failure
  then show ?thesis using assms by (auto simp: batch_ok_def get_revinfo_unfold)
next
  case (Response st content)
  show ?thesis
  proof (cases "st = 200")
    case False
    then show ?thesis using assms Response by (auto simp: batch_ok_def get_revinfo_unfold)
  next
    case True
    show ?thesis
    proof (cases "get_revinfo_from_json content")
      case RNone
      then show ?thesis using assms Response True
        by (auto simp: batch_ok_def get_revinfo_unfold)
    next
      case REmptyDict
      then show ?thesis using assms Response True
        by (auto simp: batch_ok_def get_revinfo_unfold)
    next
      case (RTuple revinfo badrevs)
      have h: "list_all py_hashable (map fst revinfo)"
        using get_revinfo_from_json_hashable[OF RTuple] .
      have g: "g = Inr (Some (revinfo, badrevs))"
        using assms Response True RTuple by (auto simp: get_revinfo_unfold)
      have "batch_ok remote d (served w) b = (\<exists>ks. py_sorted (map fst revinfo) = Inr ks)"
        using Response True RTuple by (auto simp: batch_ok_def split: sum.splits)
      then show ?thesis using g display_revinfo_fst[OF h, of w1] by simp
    qed
  qed
qed

lemma revrange_loop_unfold:
  assumes "revrange \<noteq> []"
    and "get_revinfo remote (map str_revid (take 10 revrange)) dmn w = (g, w1)"
  shows "revrange_loop remote dmn revrange redo w =
       (case (g, w1) of
        (Inl e, w1) \<Rightarrow> (Inl e, w1)
      | (Inr None, w1) \<Rightarrow> (Inl TypeError, w1)
      | (Inr (Some (revinfo, badrevs)), w1) \<Rightarrow>
          (case display_revinfo revinfo w1 of
             (Inl e, w2) \<Rightarrow> (Inl e, w2)
           | (Inr u, w2) \<Rightarrow>
               if drop 10 revrange = []
               then (Inr (redo @ badrevs), w2)
               else revrange_loop remote dmn (drop 10 revrange) (redo @ badrevs)
                      (emit (Sleep 5) w2)))"
proof -
  have e: "(map str_revid (take 10 (drop 10 revrange)) = []) = (drop 10 revrange = [])"
    by (cases "drop 10 revrange") auto
  have n: "map str_revid (take 10 revrange) \<noteq> []"
    using assms(1) by (cases revrange) auto
  show ?thesis
    by (subst revrange_loop.simps) (simp only: n e assms(2) if_False)
qed

lemma revrange_loop_sent:
  "revrange_loop remote (Some d) revrange redo w = (r, w') \<Longrightarrow>
     requests_of (trace w')
       = requests_of (trace w)
         @ map (batch_request d)
             (sent_batches (batch_ok remote d) (served w) (batches (map str_revid revrange)))
     \<and> served w'
         = served w
           + length (sent_batches (batch_ok remote d) (served w) (batches (map str_revid revrange)))
     \<and> ((\<exists>redo'. r = Inr redo')
          = all_through (batch_ok remote d) (served w) (batches (map str_revid revrange)))"
proof (induction remote "Some d" revrange redo w arbitrary: r w' rule: revrange_loop.induct)
  case (1 remote revrange redo w)
  let ?ids = "map str_revid revrange"
  let ?b = "map str_revid (take 10 revrange)"
  let ?rest = "map str_revid (drop 10 revrange)"
  let ?ok = "batch_ok remote d"
  show ?case
  proof (cases "revrange = []")
    case True
    then show ?thesis using "1.prems" by (auto simp: revrange_loop_Nil batches_Nil)
  next
    case False
    then have ne: "?ids \<noteq> []" by simp
    have bt: "batches ?ids = ?b # batches ?rest"
      using batches_Cons[OF ne] by (simp add: take_map drop_map)
    obtain g w1 where g: "get_revinfo remote ?b (Some d) w = (g, w1)"
      by fastforce
    have rq1: "requests_of (trace w1) = requests_of (trace w) @ [batch_request d ?b]"
      using get_revinfo_requests[of remote ?b d w] g by simp
    have sv1: "served w1 = Suc (served w)"
      using get_revinfo_served[of remote ?b d w] g by simp
    note unf = revrange_loop_unfold[OF False g, of redo]
    note ok = batch_ok_iff[OF g]
    have stop: ?thesis
      if a: "requests_of (trace w') = requests_of (trace w1)" and b: "served w' = served w1"
        and c: "\<not> ?ok (served w) ?b" and e: "\<forall>redo'. r \<noteq> Inr redo'"
      using a b c e rq1 sv1 by (simp add: bt)
    show ?thesis
    proof (cases g)
      case (Inl e)
      then have "r = Inl e" "w' = w1" using "1.prems" unf by simp_all
      moreover have "\<not> ?ok (served w) ?b" using ok Inl by simp
      ultimately show ?thesis by (intro stop) simp_all
    next
      case (Inr o1)
      show ?thesis
      proof (cases o1)
        case None
        then have "r = Inl TypeError" "w' = w1" using "1.prems" unf Inr by simp_all
        moreover have "\<not> ?ok (served w) ?b" using ok Inr None by simp
        ultimately show ?thesis by (intro stop) simp_all
      next
        case (Some p)
        obtain revinfo badrevs where p: "p = (revinfo, badrevs)" by fastforce
        obtain dr' w2 where d2: "display_revinfo revinfo w1 = (dr', w2)" by fastforce
        have rq2: "requests_of (trace w2) = requests_of (trace w1)"
          using display_revinfo_requests[of revinfo w1] d2 by simp
        have sv2: "served w2 = served w1"
          using display_revinfo_served[of revinfo w1] d2 by simp
        have okd: "?ok (served w) ?b = (dr' = Inr ())"
          using ok Inr Some p d2 by simp
        show ?thesis
        proof (cases dr')
          case (Inl e)
          then have "r = Inl e" "w' = w2"
            using "1.prems" unf \<open>g = Inr o1\<close> Some p d2 by simp_all
          moreover have "\<not> ?ok (served w) ?b" using okd Inl by simp
          ultimately show ?thesis using rq2 sv2 by (intro stop) simp_all
        next
          case Inr2: (Inr u)
          have okb: "?ok (served w) ?b" using okd Inr2 by simp
          show ?thesis
          proof (cases "drop 10 revrange = []")
            case True
            then have "r = Inr (redo @ badrevs)" "w' = w2"
              using "1.prems" unf \<open>g = Inr o1\<close> Some p d2 Inr2 by simp_all
            then show ?thesis using rq1 rq2 sv1 sv2 okb True by (simp add: bt batches_Nil)
          next
            case F2: False
            then have nb: "map str_revid (take 10 (drop 10 revrange)) \<noteq> []"
              by (cases "drop 10 revrange") auto
            have rec: "revrange_loop remote (Some d) (drop 10 revrange) (redo @ badrevs)
                         (emit (Sleep 5) w2) = (r, w')"
              using "1.prems" unf \<open>g = Inr o1\<close> Some p d2 Inr2 F2 by simp
            have nb0: "?b \<noteq> []" using False by (cases revrange) auto
            have sl: "requests_of (trace (emit (Sleep 5) w2)) = requests_of (trace w1)"
              "served (emit (Sleep 5) w2) = Suc (served w)"
              using rq2 sv1 sv2 by (simp_all add: emit_def requests_of_append)
            note ih = "1.hyps"[OF nb0 g[symmetric] \<open>g = Inr o1\<close> Some p[symmetric] d2[symmetric]
                Inr2 nb rec]
            show ?thesis
              using ih sl rq1 okb by (simp add: bt)
          qed
        qed
      qed
    qed
  qed
qed

lemma all_through_iff:
  "all_through ok n bs = (\<forall>i < length bs. ok (n + i) (bs ! i))"
proof (induction bs arbitrary: n)
  case Nil
  then show ?case by simp
next
  case (Cons b bs)
  have "(\<forall>i < Suc (length bs). ok (n + i) ((b # bs) ! i))
          = (ok n b \<and> (\<forall>i < length bs. ok (Suc n + i) (bs ! i)))"
    by (auto simp: less_Suc_eq_0_disj)
  then show ?case using Cons[of "Suc n"] by simp
qed

lemma sent_batches_prefix:
  "sent_batches ok n bs = take (length (sent_batches ok n bs)) bs"
  by (induction bs arbitrary: n) auto

lemma sent_batches_length: "length (sent_batches ok n bs) \<le> length bs"
  by (induction bs arbitrary: n) auto

lemma sent_batches_reach:
  "j < length bs \<Longrightarrow>
     (j < length (sent_batches ok n bs)) = (\<forall>i < j. ok (n + i) (bs ! i))"
proof (induction bs arbitrary: n j)
  case Nil
  then show ?case by simp
next
  case (Cons b bs)
  show ?case
  proof (cases j)
    case 0
    then show ?thesis by simp
  next
    case (Suc k)
    then have k: "k < length bs" using Cons.prems by simp
    have "(\<forall>i < Suc k. ok (n + i) ((b # bs) ! i))
            = (ok n b \<and> (\<forall>i < k. ok (Suc n + i) (bs ! i)))"
      by (auto simp: less_Suc_eq_0_disj)
    then show ?thesis using Cons.IH[OF k, of "Suc n"] Suc by simp
  qed
qed

lemma do_revrange_sent:
  fixes remote revrange d w
  defines "bs \<equiv> batches (map str_revid revrange)"
  shows "\<exists>m \<le> length bs.
      requests_of (trace (snd (do_revrange remote revrange (Some d) w)))
        = requests_of (trace w) @ map (batch_request d) (take m bs)
      \<and> served (snd (do_revrange remote revrange (Some d) w)) = served w + m
      \<and> (\<forall>j < length bs. (j < m) = (\<forall>i < j. batch_ok remote d (served w + i) (bs ! i)))
      \<and> ((\<exists>redo. fst (do_revrange remote revrange (Some d) w) = Inr redo)
           = (\<forall>i < length bs. batch_ok remote d (served w + i) (bs ! i)))"
proof -
  let ?sb = "sent_batches (batch_ok remote d) (served w) bs"
  note s = revrange_loop_sent[of remote d revrange "[]" w
      "fst (do_revrange remote revrange (Some d) w)" "snd (do_revrange remote revrange (Some d) w)",
      folded bs_def]
  have a: "requests_of (trace (snd (do_revrange remote revrange (Some d) w)))
        = requests_of (trace w) @ map (batch_request d) (take (length ?sb) bs)"
    using s sent_batches_prefix[of "batch_ok remote d" "served w" bs]
    by (simp add: do_revrange_def)
  have b: "served (snd (do_revrange remote revrange (Some d) w)) = served w + length ?sb"
    using s by (simp add: do_revrange_def)
  have c: "\<forall>j < length bs. (j < length ?sb)
              = (\<forall>i < j. batch_ok remote d (served w + i) (bs ! i))"
    using sent_batches_reach[of _ bs "batch_ok remote d" "served w"] by blast
  have e: "(\<exists>redo. fst (do_revrange remote revrange (Some d) w) = Inr redo)
           = (\<forall>i < length bs. batch_ok remote d (served w + i) (bs ! i))"
    using s all_through_iff[of "batch_ok remote d" "served w" bs]
    by (simp add: do_revrange_def)
  show ?thesis
    using a b c e sent_batches_length[of "batch_ok remote d" "served w" bs]
    by (intro exI[of _ "length ?sb"]) blast
qed

subsection \<open>The batches of a pass\<close>


text \<open>
  C4. The candidate ids \<^verbatim>\<open>do_main\<close> builds are start, start + 10000000, ...: exactly
  the values of that form strictly below end, in ascending order.
  \<^verbatim>\<open>do_revrange\<close> sends them in the consecutive batches of at most 10 ids, one
  request per batch, in order: batch j gets its request exactly when every batch
  before it got a reply the loop gets through (\<open>batch_ok\<close>), and the pass returns
  exactly when every batch did. The first pass of a run does the same with the
  candidate ids. For start 1 and end 25000000 the ids are 1, 10000001, 20000001, one
  batch of 3.
\<close>

theorem candidate_ids_in_batches:
  assumes "process_opts remote argv w0 = (Inr a, w1)"
    and "domain a = Some dm"
    and "int_of_str (start_rev a) = Inr start"
    and "py_int (end_rev a) = Inr stop"
  shows "(\<forall>x. x \<in> set (py_range lo hi 10000000)
              \<longleftrightarrow> (\<exists>k::nat. x = lo + int k * 10000000 \<and> x < hi))
       \<and> sorted_wrt (<) (py_range lo hi 10000000)
       \<and> concat (batches (map str_revid revrange)) = map str_revid revrange
       \<and> (\<forall>b \<in> set (batches (map str_revid revrange)). b \<noteq> [] \<and> length b \<le> 10)
       \<and> (\<exists>m \<le> length (batches (map str_revid revrange)).
             requests_of (trace (snd (do_revrange remote revrange (Some d) w)))
               = requests_of (trace w)
                 @ map (batch_request d) (take m (batches (map str_revid revrange)))
             \<and> (\<forall>j < length (batches (map str_revid revrange)).
                   (j < m) = (\<forall>i < j. batch_ok remote d (served w + i)
                                         (batches (map str_revid revrange) ! i)))
             \<and> ((\<exists>redo. fst (do_revrange remote revrange (Some d) w) = Inr redo)
                  = (\<forall>i < length (batches (map str_revid revrange)).
                       batch_ok remote d (served w + i)
                         (batches (map str_revid revrange) ! i))))
       \<and> (\<exists>m rest. m \<le> length (batches (map str_int (py_range start stop 10000000)))
             \<and> requests_of (trace (snd (do_main fuel remote argv w0)))
                 = requests_of (trace w1)
                   @ map (batch_request dm)
                       (take m (batches (map str_int (py_range start stop 10000000))))
                   @ rest
             \<and> (\<forall>j < length (batches (map str_int (py_range start stop 10000000))).
                   (j < m) = (\<forall>i < j. batch_ok remote dm (served w1 + i)
                       (batches (map str_int (py_range start stop 10000000)) ! i)))
             \<and> (rest \<noteq> [] \<longrightarrow>
                   (\<forall>i < length (batches (map str_int (py_range start stop 10000000))).
                      batch_ok remote dm (served w1 + i)
                        (batches (map str_int (py_range start stop 10000000)) ! i))))
       \<and> py_range 1 25000000 10000000 = [1, 10000001, 20000001]
       \<and> batches (map str_int [1, 10000001, 20000001]) = [[''1'', ''10000001'', ''20000001'']]"
proof -
  let ?ids = "map str_int (py_range start stop 10000000)"
  let ?bs = "batches ?ids"
  let ?rr = "map IntRev (py_range start stop 10000000)"
  define w2 where "w2 = (if verbose a then emit (PrintArgs a) w1 else w1)"
  have rq2: "requests_of (trace w2) = requests_of (trace w1)" "served w2 = served w1"
    by (simp_all add: w2_def emit_def requests_of_append)
  have ids: "map str_revid ?rr = ?ids" by (simp add: comp_def)
  obtain g w3 where g: "do_revrange remote ?rr (Some dm) w2 = (g, w3)" by fastforce
  obtain m where m: "m \<le> length ?bs"
    "requests_of (trace w3) = requests_of (trace w2) @ map (batch_request dm) (take m ?bs)"
    "\<forall>j < length ?bs. (j < m) = (\<forall>i < j. batch_ok remote dm (served w2 + i) (?bs ! i))"
    "(\<exists>redo. g = Inr redo) = (\<forall>i < length ?bs. batch_ok remote dm (served w2 + i) (?bs ! i))"
    using do_revrange_sent[of ?rr remote dm w2] g unfolding ids by auto
  have main: "\<exists>m rest. m \<le> length ?bs
             \<and> requests_of (trace (snd (do_main fuel remote argv w0)))
                 = requests_of (trace w1) @ map (batch_request dm) (take m ?bs) @ rest
             \<and> (\<forall>j < length ?bs.
                   (j < m) = (\<forall>i < j. batch_ok remote dm (served w1 + i) (?bs ! i)))
             \<and> (rest \<noteq> [] \<longrightarrow>
                   (\<forall>i < length ?bs. batch_ok remote dm (served w1 + i) (?bs ! i)))"
  proof (cases g)
    case (Inl e)
    then have "snd (do_main fuel remote argv w0) = w3"
      using assms g by (simp add: do_main_def w2_def)
    then show ?thesis
      using m(1,2,3) rq2 by (intro exI[of _ m] exI[of _ "[]"]) simp
  next
    case (Inr redo)
    define w4 where "w4 = (if redo \<noteq> [] then emit (Sleep 5) w3 else w3)"
    have rq4: "requests_of (trace w4) = requests_of (trace w3)"
      by (simp add: w4_def emit_def requests_of_append)
    have "snd (do_main fuel remote argv w0) = snd (retry_loop fuel remote (Some dm) redo w4)"
      using assms g Inr by (simp add: do_main_def w2_def w4_def)
    moreover obtain rest where
      "requests_of (trace (snd (retry_loop fuel remote (Some dm) redo w4)))
         = requests_of (trace w4) @ rest"
      using retry_loop_requests by blast
    moreover have "\<forall>i < length ?bs. batch_ok remote dm (served w1 + i) (?bs ! i)"
      using m(4) Inr rq2 by simp
    ultimately show ?thesis
      using m(1,2,3) rq2 rq4 by (intro exI[of _ m] exI[of _ rest]) simp
  qed
  have pass: "\<exists>m \<le> length (batches (map str_revid revrange)).
             requests_of (trace (snd (do_revrange remote revrange (Some d) w)))
               = requests_of (trace w)
                 @ map (batch_request d) (take m (batches (map str_revid revrange)))
             \<and> (\<forall>j < length (batches (map str_revid revrange)).
                   (j < m) = (\<forall>i < j. batch_ok remote d (served w + i)
                                         (batches (map str_revid revrange) ! i)))
             \<and> ((\<exists>redo. fst (do_revrange remote revrange (Some d) w) = Inr redo)
                  = (\<forall>i < length (batches (map str_revid revrange)).
                       batch_ok remote d (served w + i)
                         (batches (map str_revid revrange) ! i)))"
    using do_revrange_sent[of revrange remote d w] by blast
  have r: "py_range 1 25000000 10000000 = [1, 10000001, 20000001]"
    by (simp add: py_range_def range_len_def upt_rec)
  have b: "batches (map str_int [1, 10000001, 20000001]) = [[''1'', ''10000001'', ''20000001'']]"
    by (simp add: batches_Cons batches_Nil run_defs)
  have mem: "\<forall>x. x \<in> set (py_range lo hi 10000000)
              \<longleftrightarrow> (\<exists>k::nat. x = lo + int k * 10000000 \<and> x < hi)"
    using py_range_mem[of 10000000 _ lo hi] by simp
  have asc: "sorted_wrt (<) (py_range lo hi 10000000)"
    using py_range_ascending[of 10000000 lo hi] by simp
  have bb: "\<forall>b \<in> set (batches (map str_revid revrange)). b \<noteq> [] \<and> length b \<le> 10"
    using batches_bounds[of _ "map str_revid revrange"] by blast
  show ?thesis
    using mem asc concat_batches[of "map str_revid revrange"] bb pass main r b
    by (intro conjI)
qed

theorem candidate_ids_in_batches_witness:
  "requests_of (trace (snd (do_main 0
       (\<lambda>n req. Response 200 (Some (PDict [(''query'', PDict [(''pages'', PDict
          [(''736'', PDict [(''revisions'', PList
              [PDict [(''revid'', PInt 1), (''timestamp'',
               PStr ''2001-01-21T02:12:21Z'')]])])])])])))
       (Parsed [(''--domain'', ''en.wikipedia.org''), (''--startrev'', ''1''),
                (''--endrev'', ''250000001'')] [])
       world0)))
     = [batch_request ''en.wikipedia.org''
          [''1'', ''10000001'', ''20000001'', ''30000001'', ''40000001'', ''50000001'',
           ''60000001'', ''70000001'', ''80000001'', ''90000001''],
        batch_request ''en.wikipedia.org''
          [''100000001'', ''110000001'', ''120000001'', ''130000001'', ''140000001'',
           ''150000001'', ''160000001'', ''170000001'', ''180000001'', ''190000001''],
        batch_request ''en.wikipedia.org''
          [''200000001'', ''210000001'', ''220000001'', ''230000001'', ''240000001'']]
   \<and> requests_of (trace (snd (do_main 0
       (\<lambda>n req. Response 200 (Some (PDict [(''query'', PDict [(''pages'', PDict
          [(''736'', PDict [(''revisions'', PList
              [PDict [(''revid'', PInt 1), (''timestamp'',
               PStr ''2001-01-21T02:12:21Z'')]])])])])])))
       (Parsed [(''--domain'', ''en.wikipedia.org''), (''--startrev'', ''1''),
                (''--endrev'', ''25000000'')] [])
       world0)))
     = [batch_request ''en.wikipedia.org'' [''1'', ''10000001'', ''20000001'']]
   \<and> py_range 1 25000000 10000000 = [1, 10000001, 20000001]
   \<and> batches (map str_int [1, 10000001, 20000001]) = [[''1'', ''10000001'', ''20000001'']]"
proof -
  let ?remote = "\<lambda>(n::nat) (req::request).
       Response 200 (Some (PDict [(''query'', PDict [(''pages'', PDict
          [(''736'', PDict [(''revisions'', PList
              [PDict [(''revid'', PInt 1), (''timestamp'',
               PStr ''2001-01-21T02:12:21Z'')]])])])])]))"
  let ?argv = "Parsed [(''--domain'', ''en.wikipedia.org''), (''--startrev'', ''1''),
                (''--endrev'', ''250000001'')] []"
  let ?argv' = "Parsed [(''--domain'', ''en.wikipedia.org''), (''--startrev'', ''1''),
                (''--endrev'', ''25000000'')] []"
  let ?a = "\<lparr>domain = Some ''en.wikipedia.org'', start_rev = ''1'',
             end_rev = PStr ''250000001'', dryrun = False, verbose = False\<rparr>"
  have h1: "process_opts ?remote ?argv world0 = (Inr ?a, world0)"
    by (simp add: run_defs)
  have h2: "domain ?a = Some ''en.wikipedia.org''" by simp
  have h3: "int_of_str (start_rev ?a) = Inr 1" by (simp add: run_defs)
  have h4: "py_int (end_rev ?a) = Inr 250000001" by (simp add: run_defs)
  have e: "requests_of (trace (snd (do_main 0 ?remote ?argv world0)))
     = [batch_request ''en.wikipedia.org''
          [''1'', ''10000001'', ''20000001'', ''30000001'', ''40000001'', ''50000001'',
           ''60000001'', ''70000001'', ''80000001'', ''90000001''],
        batch_request ''en.wikipedia.org''
          [''100000001'', ''110000001'', ''120000001'', ''130000001'', ''140000001'',
           ''150000001'', ''160000001'', ''170000001'', ''180000001'', ''190000001''],
        batch_request ''en.wikipedia.org''
          [''200000001'', ''210000001'', ''220000001'', ''230000001'', ''240000001'']]"
    by (simp add: run_defs)
  have e': "requests_of (trace (snd (do_main 0 ?remote ?argv' world0)))
     = [batch_request ''en.wikipedia.org'' [''1'', ''10000001'', ''20000001'']]"
    by (simp add: run_defs)
  have "py_range 1 25000000 10000000 = [1, 10000001, 20000001]
      \<and> batches (map str_int [1, 10000001, 20000001]) = [[''1'', ''10000001'', ''20000001'']]"
    using candidate_ids_in_batches[OF h1 h2 h3 h4] by blast
  then show ?thesis using e e' by simp
qed

subsection \<open>An end revision that is not resolved\<close>

lemma set_opts_world: "set_opts a opts w = (Inr a', w') \<Longrightarrow> w' = w"
proof (induction a opts w rule: set_opts.induct)
  case (1 a w)
  then show ?case by simp
next
  case (2 a opt val rest w)
  then show ?case by (auto simp: usage_def Let_def split: if_splits)
qed

text \<open>
  C6. The claim: when the end revision is unset and the lookup of the maximum revision
  resolves nothing, the program fails with a usage message and a non-zero exit, as
  for a missing required value. The code does not: \<^verbatim>\<open>check_opts\<close> stores the None
  of \<^verbatim>\<open>get_max_rev\<close> in the arguments without looking at it, and \<^verbatim>\<open>do_main\<close> raises
  TypeError on \<^verbatim>\<open>int(None)\<close>. No usage message is written.
\<close>

theorem unresolved_end_rev_raises:
  assumes "set_opts get_default_opts options w = (Inr a, w)"
    and "domain a = Some d" and "d \<noteq> []"
    and "py_isdigit (start_rev a)" and "int_of_str (start_rev a) = Inr lo"
    and "\<not> py_truthy (end_rev a)"
    and "get_max_rev remote d w = (Inr PNone, w1)"
  shows "do_main fuel remote (Parsed options []) w
           = (Some (Raised TypeError),
              if verbose a then emit (PrintArgs (a\<lparr>end_rev := PNone\<rparr>)) w1 else w1)
       \<and> (\<exists>evs. trace w1 = trace w @ evs \<and> Stderr usage_message \<notin> set evs)"
proof -
  have c: "check_opts remote a w = (Inr (a\<lparr>end_rev := PNone\<rparr>), w1)"
    using assms(2-7) by (simp add: check_opts_def)
  have p: "process_opts remote (Parsed options []) w = (Inr (a\<lparr>end_rev := PNone\<rparr>), w1)"
    using assms(1) c by (simp add: process_opts_def)
  have m: "do_main fuel remote (Parsed options []) w
           = (Some (Raised TypeError),
              if verbose a then emit (PrintArgs (a\<lparr>end_rev := PNone\<rparr>)) w1 else w1)"
    using p assms(5) by (simp add: do_main_def)
  have u: "Stderr usage_message \<noteq> failed_line d"
    by (simp add: failed_line_def usage_message_def)
  have "\<exists>evs. trace w1 = trace w @ evs \<and> Stderr usage_message \<notin> set evs"
  proof (cases "remote (served w) (maxrev_request d)")
    case Failure
    then show ?thesis using assms(7) by (simp add: get_max_rev_unfold)
  next
    case (Response st content)
    show ?thesis
    proof (cases "st = 200")
      case True
      then have "w1 = sent (maxrev_request d) w"
        using assms(7) Response by (simp add: get_max_rev_unfold)
      then show ?thesis by (simp add: sent_def)
    next
      case False
      then have "w1 = emit (failed_line d) (sent (maxrev_request d) w)"
        using assms(7) Response by (simp add: get_max_rev_unfold)
      then show ?thesis using u by (simp add: sent_def emit_def)
    qed
  qed
  then show ?thesis using m by simp
qed

theorem unresolved_end_rev_raises_witness:
  "do_main 0 (\<lambda>n req. Response 503 None) (Parsed [(''--domain'', ''en.wikipedia.org'')] []) world0
     = (Some (Raised TypeError),
        \<lparr>served = 1, trace = [HttpGet (maxrev_request ''en.wikipedia.org''),
                              failed_line ''en.wikipedia.org'']\<rparr>)"
proof -
  let ?remote = "\<lambda>(n::nat) (req::request). Response 503 None"
  let ?a = "\<lparr>domain = Some ''en.wikipedia.org'', start_rev = ''1'', end_rev = PNone,
             dryrun = False, verbose = False\<rparr>"
  let ?w1 = "\<lparr>served = 1, trace = [HttpGet (maxrev_request ''en.wikipedia.org''),
                              failed_line ''en.wikipedia.org'']\<rparr>"
  have h1: "set_opts get_default_opts [(''--domain'', ''en.wikipedia.org'')] world0
              = (Inr ?a, world0)"
    by (simp add: run_defs)
  have h2: "domain ?a = Some ''en.wikipedia.org''" by simp
  have h3: "''en.wikipedia.org'' \<noteq> []" by simp
  have h4: "py_isdigit (start_rev ?a)" by (simp add: run_defs)
  have h5: "int_of_str (start_rev ?a) = Inr 1" by (simp add: run_defs)
  have h6: "\<not> py_truthy (end_rev ?a)" by simp
  have h7: "get_max_rev ?remote ''en.wikipedia.org'' world0 = (Inr PNone, ?w1)"
    by (simp add: run_defs)
  show ?thesis
    using unresolved_end_rev_raises[OF h1 h2 h3 h4 h5 h6 h7, of 0] by simp
qed

subsection \<open>Command lines that are refused\<close>









subsection \<open>Termination of the retry loop\<close>

lemma do_revrange_all_bad:
  "do_revrange all_bad [StrRev s] (Some d) w = (Inr [s], sent (batch_request d [s]) w)"
  by (simp add: do_revrange_def revrange_loop_Cons get_revinfo_unfold all_bad_def
      batch_request_def get_revinfo_from_json_def revinfo_try_def display_revinfo_def
      py_sorted_def)

lemma retry_loop_all_bad:
  "fst (retry_loop fuel all_bad (Some d) [str_int i] w) = None"
proof (induction fuel arbitrary: i w)
  case 0
  then show ?case by simp
next
  case (Suc fuel)
  have "increment_all [str_int i] = Inr [str_int (i + 1)]"
    by (simp add: int_of_str_int)
  then show ?case
    using Suc[of "i + 1" "sent (batch_request d [str_int (i + 1)]) w"]
    by (simp add: do_revrange_all_bad)
qed

lemma revrange_loop_redo:
  assumes honest: "\<And>b w rv bad w1. get_revinfo remote b (Some d) w = (Inr (Some (rv, bad)), w1)
      \<Longrightarrow> \<forall>s \<in> set bad. s \<in> set b \<and> P s"
  shows "revrange_loop remote (Some d) revrange redo w = (Inr redo', w')
     \<Longrightarrow> set redo' \<subseteq> set redo \<union> {s \<in> set (map str_revid revrange). P s}"
  using honest
proof (induction remote "Some d" revrange redo w arbitrary: redo' w' rule: revrange_loop.induct)
  case (1 remote revrange redo w)
  note hon = "1.prems"(2)
  note run = "1.prems"(1)
  let ?b = "map str_revid (take 10 revrange)"
  show ?case
  proof (cases "revrange = []")
    case True
    then show ?thesis using run by (auto simp: revrange_loop_Nil)
  next
    case False
    obtain g w1 where g: "get_revinfo remote ?b (Some d) w = (g, w1)" by fastforce
    note unf = revrange_loop_unfold[OF False g, of redo]
    have nb0: "?b \<noteq> []" using False by (cases revrange) auto
    show ?thesis
    proof (cases g)
      case (Inl e)
      then show ?thesis using run unf by simp
    next
      case (Inr o1)
      show ?thesis
      proof (cases o1)
        case None
        then show ?thesis using run unf Inr by simp
      next
        case (Some p)
        obtain revinfo badrevs where p: "p = (revinfo, badrevs)" by fastforce
        obtain dr' w2 where d2: "display_revinfo revinfo w1 = (dr', w2)" by fastforce
        have "get_revinfo remote ?b (Some d) w = (Inr (Some (revinfo, badrevs)), w1)"
          using g Inr Some p by simp
        then have "\<forall>s \<in> set badrevs. s \<in> set ?b \<and> P s"
          by (rule hon)
        then have bad: "set badrevs \<subseteq> {s \<in> set (map str_revid revrange). P s}"
          by (auto dest: in_set_takeD)
        show ?thesis
        proof (cases dr')
          case (Inl e)
          then show ?thesis using run unf \<open>g = Inr o1\<close> Some p d2 by simp
        next
          case Inr2: (Inr u)
          show ?thesis
          proof (cases "drop 10 revrange = []")
            case True
            then have "redo' = redo @ badrevs"
              using run unf \<open>g = Inr o1\<close> Some p d2 Inr2 by simp
            then show ?thesis using bad by auto
          next
            case F2: False
            then have nb: "map str_revid (take 10 (drop 10 revrange)) \<noteq> []"
              by (cases "drop 10 revrange") auto
            have rec: "revrange_loop remote (Some d) (drop 10 revrange) (redo @ badrevs)
                         (emit (Sleep 5) w2) = (Inr redo', w')"
              using run unf \<open>g = Inr o1\<close> Some p d2 Inr2 F2 by simp
            have "set redo' \<subseteq> set (redo @ badrevs)
                    \<union> {s \<in> set (map str_revid (drop 10 revrange)). P s}"
              using "1.hyps"[OF nb0 g[symmetric] \<open>g = Inr o1\<close> Some p[symmetric] d2[symmetric]
                  Inr2 nb rec hon] .
            then show ?thesis using bad by (auto dest: in_set_dropD)
          qed
        qed
      qed
    qed
  qed
qed


lemma parsed_list:
  "\<forall>s \<in> set redo. \<exists>i. int_of_str s = Inr i \<Longrightarrow> \<exists>ns. map int_of_str redo = map Inr ns"
proof (induction redo)
  case Nil
  then show ?case by simp
next
  case (Cons s redo)
  then obtain ns where ns: "map int_of_str redo = map Inr ns" by auto
  from Cons.prems obtain i where "int_of_str s = Inr i" by auto
  then have "map int_of_str (s # redo) = map Inr (i # ns)" using ns by simp
  then show ?case by blast
qed

lemma do_revrange_redo:
  assumes "\<And>b w rv bad w1. get_revinfo remote b (Some d) w = (Inr (Some (rv, bad)), w1)
      \<Longrightarrow> \<forall>s \<in> set bad. s \<in> set b \<and> P s"
    and "do_revrange remote (map StrRev new_range) (Some d) w = (Inr redo', w')"
  shows "set redo' \<subseteq> {s \<in> set new_range. P s}"
proof -
  have "map str_revid (map StrRev new_range) = new_range"
    by (induction new_range) simp_all
  then show ?thesis
    using revrange_loop_redo[of remote d P "map StrRev new_range" "[]" w redo' w', OF assms(1)]
      assms(2)
    by (simp add: do_revrange_def)
qed

lemma retry_loop_bounded:
  assumes hon: "\<And>b w rv bad w1. get_revinfo remote b (Some d) w = (Inr (Some (rv, bad)), w1)
      \<Longrightarrow> \<forall>s \<in> set bad. s \<in> set b \<and> (\<exists>i. int_of_str s = Inr i \<and> isbad i)"
  shows "\<forall>s \<in> set redo. \<exists>i k. int_of_str s = Inr i \<and> 0 < k \<and> k \<le> N \<and> \<not> isbad (i + int k)
     \<Longrightarrow> \<exists>fuel out w'. retry_loop fuel remote (Some d) redo w = (Some out, w')"
proof (induction N arbitrary: redo w)
  case 0
  then have "redo = []" by (cases redo) auto
  then show ?case by simp
next
  case (Suc N)
  show ?case
  proof (cases redo)
    case Nil
    then show ?thesis by simp
  next
    case (Cons r rs)
    have "\<forall>s \<in> set redo. \<exists>i. int_of_str s = Inr i" using Suc.prems by blast
    then obtain ns where ns: "map int_of_str redo = map Inr ns"
      using parsed_list by blast
    let ?next = "map (\<lambda>n. str_int (n + 1)) ns"
    have inc: "increment_all (r # rs) = Inr ?next"
      using increment_all_ok[OF ns] Cons by simp
    obtain res w1 where dr: "do_revrange remote (map StrRev ?next) (Some d) w = (res, w1)"
      by fastforce
    show ?thesis
    proof (cases res)
      case (Inl e)
      then have "retry_loop (Suc 0) remote (Some d) redo w = (Some (Raised e), w1)"
        using Cons inc dr by simp
      then show ?thesis by blast
    next
      case (Inr redo')
      have sub: "set redo' \<subseteq> {s \<in> set ?next. \<exists>i. int_of_str s = Inr i \<and> isbad i}"
        using do_revrange_redo[of remote d "\<lambda>s. \<exists>i. int_of_str s = Inr i \<and> isbad i"
            ?next w redo' w1, OF hon] dr Inr by simp
      have "\<forall>s \<in> set redo'. \<exists>i k. int_of_str s = Inr i \<and> 0 < k \<and> k \<le> N \<and> \<not> isbad (i + int k)"
      proof
        fix s assume "s \<in> set redo'"
        then obtain n where n: "n \<in> set ns" and s: "s = str_int (n + 1)"
          and bad: "\<exists>i. int_of_str s = Inr i \<and> isbad i"
          using sub by auto
        have "Inr n \<in> set (map int_of_str redo)" using n ns by simp
        then obtain t where t: "t \<in> set redo" and tn: "int_of_str t = Inr n" by auto
        obtain i k where ik: "int_of_str t = Inr i" "0 < k" "k \<le> Suc N" "\<not> isbad (i + int k)"
          using Suc.prems t by blast
        have i: "i = n" using ik(1) tn by simp
        have sv: "int_of_str s = Inr (n + 1)" using s by (simp add: int_of_str_int)
        then have b1: "isbad (n + 1)" using bad by simp
        have "k \<noteq> 1" using b1 ik(4) i by auto
        then have k: "0 < k - 1" "k - 1 \<le> N" using ik(2,3) by auto
        have "n + 1 + int (k - 1) = i + int k" using i ik(2) by simp
        then have "\<not> isbad (n + 1 + int (k - 1))" using ik(4) by simp
        then show "\<exists>i k. int_of_str s = Inr i \<and> 0 < k \<and> k \<le> N \<and> \<not> isbad (i + int k)"
          using sv k by blast
      qed
      then obtain fuel out w' where "retry_loop fuel remote (Some d) redo' w1 = (Some out, w')"
        using Suc.IH by blast
      then have "retry_loop (Suc fuel) remote (Some d) redo w = (Some out, w')"
        using Cons inc dr Inr by simp
      then show ?thesis by blast
    qed
  qed
qed

lemma bound_exists:
  "\<forall>s \<in> set redo. \<exists>i k. int_of_str s = Inr i \<and> 0 < k \<and> \<not> isbad (i + int k)
   \<Longrightarrow> \<exists>N. \<forall>s \<in> set redo. \<exists>i k. int_of_str s = Inr i \<and> 0 < k \<and> k \<le> N \<and> \<not> isbad (i + int k)"
proof (induction redo)
  case Nil
  then show ?case by simp
next
  case (Cons s redo)
  then obtain N where N: "\<forall>s \<in> set redo. \<exists>i k. int_of_str s = Inr i \<and> 0 < k \<and> k \<le> N
      \<and> \<not> isbad (i + int k)" by auto
  from Cons.prems obtain i0 k0
    where ik: "int_of_str s = Inr i0" "0 < k0" "\<not> isbad (i0 + int k0)"
    by auto
  define M where "M = max N k0"
  have "\<forall>t \<in> set (s # redo). \<exists>i k. int_of_str t = Inr i \<and> 0 < k \<and> k \<le> M
      \<and> \<not> isbad (i + int k)"
  proof
    fix t assume "t \<in> set (s # redo)"
    then consider "t = s" | "t \<in> set redo" by auto
    then show "\<exists>i k. int_of_str t = Inr i \<and> 0 < k \<and> k \<le> M \<and> \<not> isbad (i + int k)"
    proof cases
      case 1
      have "k0 \<le> M" by (simp add: M_def)
      then show ?thesis using ik 1 by blast
    next
      case 2
      then obtain i' k' where a: "int_of_str t = Inr i'" "0 < k'" "k' \<le> N" "\<not> isbad (i' + int k')"
        using N by blast
      then have "k' \<le> M" by (simp add: M_def)
      then show ?thesis using a by blast
    qed
  qed
  then show ?case by blast
qed

lemma retry_loop_more_fuel:
  "retry_loop fuel remote dmn redo w = (Some out, w')
   \<Longrightarrow> retry_loop (fuel + k) remote dmn redo w = (Some out, w')"
proof (induction fuel arbitrary: redo w)
  case 0
  then show ?case by (cases redo) simp_all
next
  case (Suc fuel)
  show ?case
  proof (cases redo)
    case Nil
    then show ?thesis using Suc.prems by simp
  next
    case (Cons r rs)
    show ?thesis
    proof (cases "increment_all (r # rs)")
      case (Inl e)
      then show ?thesis using Suc.prems Cons by simp
    next
      case (Inr new_range)
      obtain res w1 where dr: "do_revrange remote (map StrRev new_range) dmn w = (res, w1)"
        by fastforce
      show ?thesis
      proof (cases res)
        case (Inl e)
        then show ?thesis using Suc.prems Cons Inr dr by simp
      next
        case r2: (Inr redo')
        then have "retry_loop fuel remote dmn redo' w1 = (Some out, w')"
          using Suc.prems Cons Inr dr by simp
        then have "retry_loop (fuel + k) remote dmn redo' w1 = (Some out, w')"
          by (rule Suc.IH)
        then show ?thesis using Cons Inr dr r2 by simp
      qed
    qed
  qed
qed

lemma py_join_single:
  "py_join ''|'' b = [c] \<Longrightarrow> c \<noteq> CHR ''|'' \<Longrightarrow> b = [[c]]"
proof (cases b)
  case Nil
  assume "py_join ''|'' b = [c]"
  then show ?thesis using Nil by simp
next
  case (Cons x xs)
  assume a: "py_join ''|'' b = [c]" and c: "c \<noteq> CHR ''|''"
  show ?thesis
  proof (cases xs)
    case Nil
    then show ?thesis using a Cons by simp
  next
    case c2: (Cons y ys)
    then have "x @ CHR ''|'' # py_join ''|'' (y # ys) = [c]" using a Cons by simp
    then show ?thesis using c by (cases x) auto
  qed
qed

lemma get_revinfo_bad_only:
  "get_revinfo (bad_only s) b (Some d) w = (Inr (Some (rv, bad)), w1)
   \<Longrightarrow> bad = (if py_join ''|'' b = s then [s] else [])"
  by (simp add: get_revinfo_unfold bad_only_def batch_request_def get_revinfo_from_json_def
      revinfo_try_def split: if_splits)

text \<open>
  C8. Let \<open>isbad\<close> say which ids the remote may report as bad: every reply lists as bad only
  ids of the batch it answers, and only ids for which \<open>isbad\<close> holds. If every id of the
  redo list reaches, after some positive number of increments by one, an id that is not bad,
  the retry loop of \<^verbatim>\<open>do_main\<close> ends: some amount of fuel, and every larger one, gives
  the same outcome. Without that condition it need not end: against the remote
  \<^const>\<open>all_bad\<close>, for which every id is bad, the loop started on the redo list
  \<^verbatim>\<open>["5"]\<close> is still running whatever the fuel, and so is the whole run with start
  revision 5 and end revision 6.
\<close>

theorem retry_loop_terminates:
  assumes "\<forall>b w rv bad w1. get_revinfo remote b (Some d) w = (Inr (Some (rv, bad)), w1)
             \<longrightarrow> (\<forall>s \<in> set bad. s \<in> set b \<and> (\<exists>i. int_of_str s = Inr i \<and> isbad i))"
    and "\<forall>s \<in> set redo. \<exists>i k. int_of_str s = Inr i \<and> 0 < k \<and> \<not> isbad (i + int k)"
  shows "(\<exists>fuel out w'. \<forall>k. retry_loop (fuel + k) remote (Some d) redo w = (Some out, w'))
     \<and> (\<forall>fuel. fst (retry_loop fuel all_bad (Some d) [''5''] w) = None)
     \<and> (\<forall>fuel. fst (do_main fuel all_bad
            (Parsed [(''--domain'', ''en.wikipedia.org''), (''--startrev'', ''5''),
                     (''--endrev'', ''6'')] []) world0) = None)"
proof -
  obtain N where N: "\<forall>s \<in> set redo. \<exists>i k. int_of_str s = Inr i \<and> 0 < k \<and> k \<le> N
      \<and> \<not> isbad (i + int k)"
    using bound_exists[OF assms(2)] by blast
  have "\<exists>fuel out w'. retry_loop fuel remote (Some d) redo w = (Some out, w')"
  proof (rule retry_loop_bounded[where isbad = isbad and N = N])
    show "\<forall>s \<in> set bad. s \<in> set b \<and> (\<exists>i. int_of_str s = Inr i \<and> isbad i)"
      if "get_revinfo remote b (Some d) w = (Inr (Some (rv, bad)), w1)" for b w rv bad w1
      using assms(1) that by blast
    show "\<forall>s \<in> set redo. \<exists>i k. int_of_str s = Inr i \<and> 0 < k \<and> k \<le> N
        \<and> \<not> isbad (i + int k)"
      by (rule N)
  qed
  then obtain fuel out w' where "retry_loop fuel remote (Some d) redo w = (Some out, w')"
    by blast
  then have "\<forall>k. retry_loop (fuel + k) remote (Some d) redo w = (Some out, w')"
    by (simp add: retry_loop_more_fuel)
  then have a: "\<exists>fuel out w'. \<forall>k. retry_loop (fuel + k) remote (Some d) redo w = (Some out, w')"
    by blast
  have five: "str_int 5 = ''5''" by (simp add: run_defs)
  have b: "\<forall>fuel. fst (retry_loop fuel all_bad (Some d) [''5''] w) = None"
    using retry_loop_all_bad[of _ d 5 w] by (simp only: five) simp
  have c: "\<forall>fuel. fst (do_main fuel all_bad
            (Parsed [(''--domain'', ''en.wikipedia.org''), (''--startrev'', ''5''),
                     (''--endrev'', ''6'')] []) world0) = None"
  proof
    fix fuel
    have "do_main fuel all_bad
            (Parsed [(''--domain'', ''en.wikipedia.org''), (''--startrev'', ''5''),
                     (''--endrev'', ''6'')] []) world0
        = retry_loop fuel all_bad (Some ''en.wikipedia.org'') [''5'']
            \<lparr>served = 1, trace = [HttpGet (batch_request ''en.wikipedia.org'' [''5'']), Sleep 5]\<rparr>"
      by (simp add: run_defs all_bad_def batch_request_def)
    then show "fst (do_main fuel all_bad
            (Parsed [(''--domain'', ''en.wikipedia.org''), (''--startrev'', ''5''),
                     (''--endrev'', ''6'')] []) world0) = None"
      using retry_loop_all_bad[of fuel "''en.wikipedia.org''" 5] by (simp only: five)
  qed
  show ?thesis using a b c by blast
qed

theorem retry_loop_terminates_witness:
  "(\<exists>fuel out w'. \<forall>k. retry_loop (fuel + k) (bad_only ''6'') (Some ''en.wikipedia.org'')
        [''5''] world0 = (Some out, w'))
   \<and> retry_loop 2 (bad_only ''6'') (Some ''en.wikipedia.org'') [''5''] world0
       = (Some Returned,
          \<lparr>served = 2, trace = [HttpGet (batch_request ''en.wikipedia.org'' [''6'']),
                                HttpGet (batch_request ''en.wikipedia.org'' [''7''])]\<rparr>)
   \<and> retry_loop 1 (bad_only ''6'') (Some ''en.wikipedia.org'') [''5''] world0
       = (None, \<lparr>served = 1, trace = [HttpGet (batch_request ''en.wikipedia.org'' [''6''])]\<rparr>)"
proof -
  let ?d = "''en.wikipedia.org''"
  have h1: "\<forall>b w rv bad w1.
      get_revinfo (bad_only ''6'') b (Some ?d) w = (Inr (Some (rv, bad)), w1)
      \<longrightarrow> (\<forall>s \<in> set bad. s \<in> set b \<and> (\<exists>i. int_of_str s = Inr i \<and> i = 6))"
  proof (intro allI impI ballI)
    fix b w rv bad w1 s
    assume g: "get_revinfo (bad_only ''6'') b (Some ?d) w = (Inr (Some (rv, bad)), w1)"
      and s: "s \<in> set bad"
    have bad: "bad = (if py_join ''|'' b = ''6'' then [''6''] else [])"
      using get_revinfo_bad_only[OF g] .
    then have j: "py_join ''|'' b = ''6''" and s6: "s = ''6''"
      using s by (auto split: if_splits)
    have "b = [''6'']" using py_join_single[OF j] by simp
    moreover have "int_of_str ''6'' = Inr 6" by (simp add: run_defs)
    ultimately show "s \<in> set b \<and> (\<exists>i. int_of_str s = Inr i \<and> i = 6)"
      using s6 by simp
  qed
  have h2: "\<forall>s \<in> set [''5'']. \<exists>i k. int_of_str s = Inr i \<and> 0 < k \<and> \<not> (i + int k = 6)"
  proof -
    have "int_of_str ''5'' = Inr 5 \<and> 0 < (2::nat) \<and> \<not> (5 + int 2 = 6)"
      by (simp add: run_defs)
    then show ?thesis by (simp del: of_nat_numeral) blast
  qed
  have a: "\<exists>fuel out w'. \<forall>k. retry_loop (fuel + k) (bad_only ''6'') (Some ?d) [''5''] world0
      = (Some out, w')"
    using retry_loop_terminates[of "bad_only ''6''" ?d "\<lambda>i. i = 6" "[''5'']" world0, OF h1 h2]
    by blast
  have b: "retry_loop 2 (bad_only ''6'') (Some ?d) [''5''] world0
       = (Some Returned,
          \<lparr>served = 2, trace = [HttpGet (batch_request ?d [''6'']),
                                HttpGet (batch_request ?d [''7''])]\<rparr>)"
    by (simp add: numeral_2_eq_2 run_defs bad_only_def batch_request_def)
  have c: "retry_loop 1 (bad_only ''6'') (Some ?d) [''5''] world0
       = (None, \<lparr>served = 1, trace = [HttpGet (batch_request ?d [''6''])]\<rparr>)"
    by (simp add: run_defs bad_only_def batch_request_def)
  show ?thesis using a b c by blast
qed

subsection \<open>The retry passes\<close>

lemma str_revid_StrRev: "map str_revid (map StrRev xs) = xs"
  by (induction xs) simp_all

lemma retry_loop_pass:
  assumes "redo \<noteq> []" and "increment_all redo = Inr new_range"
  shows "retry_loop (Suc fuel) remote dmn redo w =
     (case do_revrange remote (map StrRev new_range) dmn w of
        (Inl e, w1) \<Rightarrow> (Some (Raised e), w1)
      | (Inr redo', w1) \<Rightarrow> retry_loop fuel remote dmn redo' w1)"
  using assms by (cases redo) simp_all

lemma retry_pass_requests:
  assumes "new_range \<noteq> []"
  shows "\<exists>m. 0 < m \<and> m \<le> length (batches new_range)
      \<and> requests_of (trace (snd (do_revrange remote (map StrRev new_range) (Some d) w)))
          = requests_of (trace w) @ map (batch_request d) (take m (batches new_range))
      \<and> (\<forall>j < length (batches new_range).
            (j < m) = (\<forall>i < j. batch_ok remote d (served w + i) (batches new_range ! i)))"
proof -
  obtain m where m: "m \<le> length (batches new_range)"
    "requests_of (trace (snd (do_revrange remote (map StrRev new_range) (Some d) w)))
          = requests_of (trace w) @ map (batch_request d) (take m (batches new_range))"
    "\<forall>j < length (batches new_range).
            (j < m) = (\<forall>i < j. batch_ok remote d (served w + i) (batches new_range ! i))"
    using do_revrange_sent[where remote = remote and revrange = "map StrRev new_range"
        and d = d and w = w, unfolded str_revid_StrRev]
    by blast
  have "0 < length (batches new_range)" using assms by (simp add: batches_Cons)
  then have "0 < m" using m(3) by auto
  then show ?thesis using m by blast
qed

text \<open>
  C3. For every non-empty redo list whose entries read as the integers \<open>ns\<close>, the next
  pass of the retry loop works on the list of the decimal strings of \<open>n + 1\<close>, in the same
  order, and these read back as \<open>n + 1\<close>, so that a following pass adds one again. The loop
  does not end on a non-empty redo list without a pass; a pass that raises ends the run
  with that exception; otherwise the loop goes on with the bad ids that pass reports, and
  it returns as soon as that list is empty. The pass asks for the incremented ids in
  batches: the batches put together give the incremented list, the first batch is always
  sent, and the next ones are sent exactly as long as no reply is fatal.
\<close>

theorem retry_pass_increments:
  assumes "redo \<noteq> []" and "map int_of_str redo = map Inr ns"
  shows "increment_all redo = Inr (map (\<lambda>n. str_int (n + 1)) ns)
     \<and> map int_of_str (map (\<lambda>n. str_int (n + 1)) ns) = map Inr (map (\<lambda>n. n + 1) ns)
     \<and> fst (retry_loop 0 remote (Some d) redo w) = None
     \<and> retry_loop (Suc fuel) remote (Some d) redo w =
         (case do_revrange remote (map StrRev (map (\<lambda>n. str_int (n + 1)) ns)) (Some d) w of
            (Inl e, w1) \<Rightarrow> (Some (Raised e), w1)
          | (Inr redo', w1) \<Rightarrow> retry_loop fuel remote (Some d) redo' w1)
     \<and> retry_loop fuel remote (Some d) [] w = (Some Returned, w)
     \<and> concat (batches (map (\<lambda>n. str_int (n + 1)) ns)) = map (\<lambda>n. str_int (n + 1)) ns
     \<and> (\<exists>m. 0 < m \<and> m \<le> length (batches (map (\<lambda>n. str_int (n + 1)) ns))
          \<and> requests_of (trace (snd (do_revrange remote
                (map StrRev (map (\<lambda>n. str_int (n + 1)) ns)) (Some d) w)))
              = requests_of (trace w)
                @ map (batch_request d) (take m (batches (map (\<lambda>n. str_int (n + 1)) ns)))
          \<and> (\<forall>j < length (batches (map (\<lambda>n. str_int (n + 1)) ns)).
                (j < m) = (\<forall>i < j. batch_ok remote d (served w + i)
                                     (batches (map (\<lambda>n. str_int (n + 1)) ns) ! i))))"
proof -
  let ?next = "map (\<lambda>n. str_int (n + 1)) ns"
  have a: "increment_all redo = Inr ?next" using increment_all_ok[OF assms(2)] .
  have b: "map int_of_str ?next = map Inr (map (\<lambda>n. n + 1) ns)"
    by (simp add: int_of_str_int comp_def)
  have c: "fst (retry_loop 0 remote (Some d) redo w) = None"
    using assms(1) by (cases redo) simp_all
  have d: "retry_loop (Suc fuel) remote (Some d) redo w =
         (case do_revrange remote (map StrRev ?next) (Some d) w of
            (Inl e, w1) \<Rightarrow> (Some (Raised e), w1)
          | (Inr redo', w1) \<Rightarrow> retry_loop fuel remote (Some d) redo' w1)"
    using retry_loop_pass[OF assms(1) a] .
  have e: "retry_loop fuel remote (Some d) [] w = (Some Returned, w)" by simp
  have f: "concat (batches ?next) = ?next" by (rule concat_batches)
  have "length ns = length redo" using assms(2) by (metis length_map)
  then have "?next \<noteq> []" using assms(1) by auto
  note g = retry_pass_requests[OF this, of remote d w]
  show ?thesis using a b c d e f g by (intro conjI)
qed

theorem retry_pass_increments_witness:
  "increment_all [''5''] = Inr [''6'']
   \<and> retry_loop 2 all_bad (Some ''en.wikipedia.org'') [''5''] world0
       = (None,
          \<lparr>served = 2, trace = [HttpGet (batch_request ''en.wikipedia.org'' [''6'']),
                                HttpGet (batch_request ''en.wikipedia.org'' [''7''])]\<rparr>)
   \<and> do_main 2 all_bad
        (Parsed [(''--domain'', ''en.wikipedia.org''), (''--startrev'', ''5''),
                 (''--endrev'', ''6'')] []) world0
       = (None,
          \<lparr>served = 3, trace = [HttpGet (batch_request ''en.wikipedia.org'' [''5'']), Sleep 5,
                                HttpGet (batch_request ''en.wikipedia.org'' [''6'']),
                                HttpGet (batch_request ''en.wikipedia.org'' [''7''])]\<rparr>)
   \<and> do_main 1 (bad_only ''5'')
        (Parsed [(''--domain'', ''en.wikipedia.org''), (''--startrev'', ''5''),
                 (''--endrev'', ''6'')] []) world0
       = (Some Returned,
          \<lparr>served = 2, trace = [HttpGet (batch_request ''en.wikipedia.org'' [''5'']), Sleep 5,
                                HttpGet (batch_request ''en.wikipedia.org'' [''6''])]\<rparr>)"
proof -
  let ?d = "''en.wikipedia.org''"
  have h: "map int_of_str [''5''] = map Inr [5]" by (simp add: run_defs)
  have "increment_all [''5''] = Inr (map (\<lambda>n. str_int (n + 1)) [5])"
    using retry_pass_increments[of "[''5'']" "[5]" all_bad ?d world0 1, OF _ h] by simp
  then have a: "increment_all [''5''] = Inr [''6'']" by (simp add: run_defs)
  have b: "retry_loop 2 all_bad (Some ?d) [''5''] world0
       = (None,
          \<lparr>served = 2, trace = [HttpGet (batch_request ?d [''6'']),
                                HttpGet (batch_request ?d [''7''])]\<rparr>)"
    by (simp add: numeral_2_eq_2 run_defs all_bad_def batch_request_def)
  have c: "do_main 2 all_bad
        (Parsed [(''--domain'', ?d), (''--startrev'', ''5''), (''--endrev'', ''6'')] []) world0
       = (None,
          \<lparr>served = 3, trace = [HttpGet (batch_request ?d [''5'']), Sleep 5,
                                HttpGet (batch_request ?d [''6'']),
                                HttpGet (batch_request ?d [''7''])]\<rparr>)"
    by (simp add: numeral_2_eq_2 run_defs all_bad_def batch_request_def)
  have d: "do_main 1 (bad_only ''5'')
        (Parsed [(''--domain'', ?d), (''--startrev'', ''5''), (''--endrev'', ''6'')] []) world0
       = (Some Returned,
          \<lparr>served = 2, trace = [HttpGet (batch_request ?d [''5'']), Sleep 5,
                                HttpGet (batch_request ?d [''6''])]\<rparr>)"
    by (simp add: run_defs bad_only_def batch_request_def)
  show ?thesis using a b c d by (intro conjI)
qed

end
